theory Spec2Isabelle
  imports Main "HOL-Library.Sublist"
begin

section \<open>Browser driver adapter: scrolling (CliPage)\<close>

text \<open>
  The only effect of \<open>scrollDown\<close> and \<open>scrollUp\<close> is one call of
  \<open>window.scrollBy(0, dy)\<close> evaluated in the page. The model returns that call.
  The optional \<open>amount\<close> is \<open>None\<close> when the argument is omitted; the
  viewport height \<open>window.innerHeight\<close> is read in the page and is a parameter here.
  The source tests \<open>if (amount)\<close>, so the number 0 takes the else branch.
\<close>

datatype page_command = ScrollBy int int

definition truthy_num :: "int option \<Rightarrow> bool" where
  "truthy_num a = (case a of None \<Rightarrow> False | Some n \<Rightarrow> n \<noteq> 0)"

definition scrollDown :: "int option \<Rightarrow> int \<Rightarrow> page_command" where
  "scrollDown amount innerHeight =
     (if truthy_num amount then ScrollBy 0 (the amount) else ScrollBy 0 innerHeight)"

definition scrollUp :: "int option \<Rightarrow> int \<Rightarrow> page_command" where
  "scrollUp amount innerHeight =
     (if truthy_num amount then ScrollBy 0 (- (the amount)) else ScrollBy 0 (- innerHeight))"

section \<open>Browser driver adapter: tabs (CliBrowserContext)\<close>

text \<open>
  The adapter keeps the open pages in an array and the index of the current one.
  \<open>'p\<close> is the type of page handles; url and title of a tab are read from its handle.
\<close>

record 'p CliBrowserContext =
  pages :: "'p list"
  currentIdx :: int

datatype error =
    InvalidTabId
  | NavigationError
  | MalformedSnapshot
  | InvalidActionPayload
  | TypeError
  | TooManyErrors
  | MaxFailuresReached

text \<open>
  \<open>openTab\<close>: the new page \<open>p\<close> comes from the browser; \<open>loaded\<close> says whether
  \<open>p.goto\<close> returned. When it throws, nothing has been pushed yet.
\<close>

definition openTab :: "'p CliBrowserContext \<Rightarrow> 'p \<Rightarrow> bool \<Rightarrow> error + 'p CliBrowserContext" where
  "openTab s p loaded =
     (if \<not> loaded then Inl NavigationError
      else Inr (s\<lparr>pages := pages s @ [p], currentIdx := int (length (pages s @ [p])) - 1\<rparr>))"

definition switchTab :: "'p CliBrowserContext \<Rightarrow> int \<Rightarrow> error + ('p CliBrowserContext \<times> 'p)" where
  "switchTab s tabId =
     (let idx = tabId - 1 in
      if idx < 0 \<or> idx \<ge> int (length (pages s)) then Inl InvalidTabId
      else Inr (s\<lparr>currentIdx := idx\<rparr>, pages s ! nat idx))"

definition getAllTabIds :: "'p CliBrowserContext \<Rightarrow> int set" where
  "getAllTabIds s = set (map (\<lambda>i. int i + 1) [0..<length (pages s)])"

text \<open>Array indexing \<open>pages[idx]\<close>: undefined (here \<open>None\<close>) outside \<open>0 .. length - 1\<close>.\<close>

definition page_at :: "'p list \<Rightarrow> int \<Rightarrow> 'p option" where
  "page_at ps idx = (if 0 \<le> idx \<and> idx < int (length ps) then Some (ps ! nat idx) else None)"

text \<open>
  \<open>Array.prototype.splice(start, 1)\<close>: a negative start counts from the end and is
  clamped at 0, a start beyond the length is clamped at the length; one element is removed
  when there is one at the resulting position.
\<close>

definition splice_start :: "nat \<Rightarrow> int \<Rightarrow> nat" where
  "splice_start len start =
     (if start < 0 then nat (max (int len + start) 0) else nat (min start (int len)))"

definition splice1 :: "'a list \<Rightarrow> int \<Rightarrow> 'a list" where
  "splice1 xs start =
     (let k = splice_start (length xs) start in take k xs @ drop (Suc k) xs)"

text \<open>
  \<open>closeTab\<close> returns the new adapter state and the page that was closed, if any
  (\<open>if (p) await p.close()\<close>).
\<close>

definition closeTab :: "'p CliBrowserContext \<Rightarrow> int \<Rightarrow> 'p CliBrowserContext \<times> 'p option" where
  "closeTab s tabId =
     (let idx = tabId - 1;
          p = page_at (pages s) idx;
          pages' = splice1 (pages s) idx;
          cur = (if currentIdx s \<ge> int (length pages')
                 then max 0 (int (length pages') - 1) else currentIdx s)
      in (s\<lparr>pages := pages', currentIdx := cur\<rparr>, p))"

text \<open>\<open>getTabInfos\<close>: one entry per open page, with id \<open>i + 1\<close> for the page at index \<open>i\<close>.\<close>

definition getTabInfos :: "'p CliBrowserContext \<Rightarrow> (int \<times> 'p) list" where
  "getTabInfos s = map (\<lambda>i. (int i + 1, pages s ! i)) [0..<length (pages s)]"

text \<open>The tab addressed by an id: the page \<open>switchTab\<close> resolves it to.\<close>

definition tab_of_id :: "'p CliBrowserContext \<Rightarrow> int \<Rightarrow> 'p option" where
  "tab_of_id s tabId = (case switchTab s tabId of Inl _ \<Rightarrow> None | Inr (_, p) \<Rightarrow> Some p)"

section \<open>DOM snapshot indexer (constructDomTree)\<close>

text \<open>
  The in-page probe returns a root id and a flat object from node ids to raw node data.
  The flat object is modelled by its entries in the order \<open>Object.entries\<close> yields them
  (keys that are array indices first, in ascending order, then the other keys in
  insertion order); the keys of an object are distinct. Raw node data is a text node, an
  element node with its ordered child ids and optional highlight index (\<open>None\<close> when
  absent or null), or a falsy entry.
\<close>

type_synonym node_id = string

datatype RawDomTreeNode =
    RawNull
  | RawTextNode string bool
  | RawElementNode string "(string \<times> string) list" "node_id list" "int option"

record BuildDomTreeResult =
  rootId :: node_id
  rmap :: "(node_id \<times> RawDomTreeNode) list"

text \<open>
  What reading a property of the node map can give: the node object created for an entry
  (a reference to a node object is the id of the entry it was created for, one object per
  entry), \<open>Object.prototype\<close>, some other object (a built-in function of
  \<open>Object.prototype\<close>, or the attributes object or children array of a node; it is named
  by the property it was read from), a string, number or boolean, or null or undefined.
\<close>

datatype js_value =
    VNode node_id
  | VObjectPrototype
  | VObject string
  | VPrimitive
  | VNullish

text \<open>
  Node objects. \<open>children\<close> holds what the second loop pushes, \<open>parent\<close> the element
  the second loop assigns.
\<close>

datatype DOMBaseNode =
    DOMTextNode (node_text: string) (isVisible: bool) (parent: "node_id option")
  | DOMElementNode (tagName: string) (attributes: "(string \<times> string) list")
      (highlightIndex: "int option") (children: "js_value list") (parent: "node_id option")

type_synonym dom_store = "node_id \<rightharpoonup> DOMBaseNode"

text \<open>
  Modelled from the spec: \<open>_parse_node\<close> (chrome-extension/src/background/dom/service) is
  imported by the indexer and its body is not part of the sources at hand. The spec has it
  construct one typed node per entry, classifying Element against Text; the caller's
  \<open>node === null\<close> test shows that it may also return no node. A fresh element has no
  children and no node has a parent yet.
\<close>

fun parse_node :: "RawDomTreeNode \<Rightarrow> DOMBaseNode option" where
  "parse_node RawNull = None"
| "parse_node (RawTextNode t v) = Some (DOMTextNode t v None)"
| "parse_node (RawElementNode tg as cs h) = Some (DOMElementNode tg as h [] None)"

fun is_element :: "DOMBaseNode option \<Rightarrow> bool" where
  "is_element (Some (DOMElementNode tg as h cs p)) = True"
| "is_element _ = False"

text \<open>
  The node map is the plain object \<open>{}\<close>. The state of one call: the node objects, the
  own properties of the node map in \<open>Object.entries\<close> order (the own property \<open>k\<close> holds
  the node object \<open>k\<close>), the prototype of the node map (\<open>None\<close> for \<open>Object.prototype\<close>,
  or the node object it has been replaced by), the property \<open>parent\<close> of
  \<open>Object.prototype\<close> once it has been written, and the \<open>parent\<close> written to other
  objects. A call starts with an empty node map and an unmodified \<open>Object.prototype\<close>.
\<close>

record dom_state =
  nodes :: dom_store
  own_keys :: "node_id list"
  proto :: "node_id option"
  prototype_parent :: "node_id option"
  object_parent :: "string \<rightharpoonup> node_id"

definition initial_dom_state :: dom_state where
  "initial_dom_state =
     \<lparr>nodes = Map.empty, own_keys = [], proto = None, prototype_parent = None,
      object_parent = Map.empty\<rparr>"

text \<open>
  The properties of \<open>Object.prototype\<close> besides the accessor \<open>__proto__\<close>; all of them are
  functions.
\<close>

definition object_prototype_names :: "string list" where
  "object_prototype_names =
     [''constructor'', ''__defineGetter__'', ''__defineSetter__'', ''hasOwnProperty'',
      ''__lookupGetter__'', ''__lookupSetter__'', ''isPrototypeOf'', ''propertyIsEnumerable'',
      ''toString'', ''valueOf'', ''toLocaleString'']"

text \<open>
  Modelled from the spec: the classes \<open>DOMElementNode\<close> and \<open>DOMTextNode\<close>
  (chrome-extension/src/background/dom/views) are imported and their declarations are not
  part of the sources at hand. By the spec's data model an Element carries tag, attributes,
  an optional highlight index, its children and a parent reference, a Text its text and a
  parent reference. \<open>field n k\<close> is the value of the own property \<open>k\<close> of the node object
  \<open>n\<close>, when it has one. Methods the two classes may declare are not modelled.
\<close>

fun field :: "DOMBaseNode \<Rightarrow> string \<Rightarrow> js_value option" where
  "field (DOMTextNode t v p) k =
     (if k = ''text'' \<or> k = ''isVisible'' then Some VPrimitive
      else if k = ''parent'' then Some (case p of None \<Rightarrow> VNullish | Some q \<Rightarrow> VNode q)
      else None)"
| "field (DOMElementNode tg as h cs p) k =
     (if k = ''tagName'' then Some VPrimitive
      else if k = ''attributes'' \<or> k = ''children'' then Some (VObject k)
      else if k = ''highlightIndex'' then Some (case h of None \<Rightarrow> VNullish | Some i \<Rightarrow> VPrimitive)
      else if k = ''parent'' then Some (case p of None \<Rightarrow> VNullish | Some q \<Rightarrow> VNode q)
      else None)"

text \<open>
  \<open>nodeMap[k]\<close>, and with it \<open>k in nodeMap\<close> (the result is not \<open>None\<close>): an own
  property first; then the accessor \<open>__proto__\<close>, which gives the prototype; then the
  properties of the prototype when that is a node object; then those of
  \<open>Object.prototype\<close>.
\<close>

definition get_property :: "dom_state \<Rightarrow> string \<Rightarrow> js_value option" where
  "get_property s k =
     (if k \<in> set (own_keys s) then Some (VNode k)
      else if k = ''__proto__''
        then Some (case proto s of None \<Rightarrow> VObjectPrototype | Some r \<Rightarrow> VNode r)
      else
        (case Option.bind (Option.bind (proto s) (nodes s)) (\<lambda>n. field n k) of
           Some v \<Rightarrow> Some v
         | None \<Rightarrow>
             if k \<in> set object_prototype_names then Some (VObject k)
             else if k = ''parent'' then map_option VNode (prototype_parent s)
             else None))"

text \<open>
  \<open>nodeMap[id] = node\<close>: for the id \<open>__proto__\<close> the assignment runs the setter of
  \<open>Object.prototype\<close>, which makes the node the prototype of the node map and adds no own
  property; every other id becomes an own property.
\<close>

definition assign_node :: "node_id \<Rightarrow> DOMBaseNode \<Rightarrow> dom_state \<Rightarrow> dom_state" where
  "assign_node i node s =
     (if i = ''__proto__'' then s\<lparr>nodes := (nodes s)(i \<mapsto> node), proto := Some i\<rparr>
      else s\<lparr>nodes := (nodes s)(i \<mapsto> node),
             own_keys := (if i \<in> set (own_keys s) then own_keys s else own_keys s @ [i])\<rparr>)"

text \<open>
  First loop: parse every entry, skip entries without a node, assign the node to the node
  map under its id and register highlighted elements in the selector map (a later entry
  with the same highlight index overwrites an earlier one).
\<close>

fun register_highlight :: "node_id \<Rightarrow> DOMBaseNode \<Rightarrow> (int \<rightharpoonup> node_id) \<Rightarrow> (int \<rightharpoonup> node_id)" where
  "register_highlight i (DOMElementNode tg as (Some h) cs p) sm = sm(h \<mapsto> i)"
| "register_highlight i _ sm = sm"

fun parse_entries ::
  "(node_id \<times> RawDomTreeNode) list \<Rightarrow> dom_state \<Rightarrow> (int \<rightharpoonup> node_id)
   \<Rightarrow> dom_state \<times> (int \<rightharpoonup> node_id)" where
  "parse_entries [] nodeMap selectorMap = (nodeMap, selectorMap)"
| "parse_entries ((i, nodeData) # es) nodeMap selectorMap =
     (case parse_node nodeData of
        None \<Rightarrow> parse_entries es nodeMap selectorMap
      | Some node \<Rightarrow>
          parse_entries es (assign_node i node nodeMap) (register_highlight i node selectorMap))"

text \<open>\<open>'children' in data ? data.children : []\<close> for the raw entry of an id.\<close>

fun childrenIds :: "RawDomTreeNode option \<Rightarrow> node_id list" where
  "childrenIds (Some (RawElementNode tg as cs h)) = cs"
| "childrenIds _ = []"

fun set_parent :: "DOMBaseNode \<Rightarrow> node_id \<Rightarrow> DOMBaseNode" where
  "set_parent (DOMTextNode t v p) q = DOMTextNode t v (Some q)"
| "set_parent (DOMElementNode tg as h cs p) q = DOMElementNode tg as h cs (Some q)"

fun push_child :: "DOMBaseNode \<Rightarrow> js_value \<Rightarrow> DOMBaseNode" where
  "push_child (DOMElementNode tg as h cs p) c = DOMElementNode tg as h (cs @ [c]) p"
| "push_child n c = n"

text \<open>
  \<open>childNode.parent = node\<close> for the element stored under \<open>i\<close>: on a node object it sets
  the parent; on \<open>Object.prototype\<close> and on other objects it creates the property; on a
  string, number or boolean and on null or undefined it raises a \<open>TypeError\<close> (the source
  is module code, which is strict).
\<close>

fun assign_parent :: "js_value \<Rightarrow> node_id \<Rightarrow> dom_state \<Rightarrow> error + dom_state" where
  "assign_parent (VNode r) i s =
     Inr (case nodes s r of None \<Rightarrow> s | Some n \<Rightarrow> s\<lparr>nodes := (nodes s)(r \<mapsto> set_parent n i)\<rparr>)"
| "assign_parent VObjectPrototype i s = Inr (s\<lparr>prototype_parent := Some i\<rparr>)"
| "assign_parent (VObject l) i s = Inr (s\<lparr>object_parent := (object_parent s)(l \<mapsto> i)\<rparr>)"
| "assign_parent VPrimitive i s = Inl TypeError"
| "assign_parent VNullish i s = Inl TypeError"

text \<open>
  Body of the inner loop of the second pass, for the element stored under \<open>i\<close> and a
  child found in the node map: \<open>childNode.parent = node; node.children.push(childNode)\<close>.
\<close>

definition link_child :: "node_id \<Rightarrow> js_value \<Rightarrow> dom_state \<Rightarrow> error + dom_state" where
  "link_child i childNode s =
     (case assign_parent childNode i s of
        Inl e \<Rightarrow> Inl e
      | Inr s1 \<Rightarrow>
          Inr (case nodes s1 i of
                 None \<Rightarrow> s1
               | Some node \<Rightarrow> s1\<lparr>nodes := (nodes s1)(i \<mapsto> push_child node childNode)\<rparr>))"

text \<open>The inner loop skips the child ids that are not \<open>in\<close> the node map.\<close>

fun wire_children :: "node_id \<Rightarrow> node_id list \<Rightarrow> dom_state \<Rightarrow> error + dom_state" where
  "wire_children i [] s = Inr s"
| "wire_children i (childId # cs) s =
     (case get_property s childId of
        None \<Rightarrow> wire_children i cs s
      | Some childNode \<Rightarrow>
          (case link_child i childNode s of
             Inl e \<Rightarrow> Inl e
           | Inr s' \<Rightarrow> wire_children i cs s'))"

text \<open>
  Second loop, over the entries of the node map as they are when the loop starts (its
  own properties).
\<close>

fun wire_nodes ::
  "(node_id \<times> RawDomTreeNode) list \<Rightarrow> node_id list \<Rightarrow> dom_state \<Rightarrow> error + dom_state" where
  "wire_nodes jsNodeMap [] s = Inr s"
| "wire_nodes jsNodeMap (i # ids) s =
     (if is_element (nodes s i)
      then (case wire_children i (childrenIds (map_of jsNodeMap i)) s of
              Inl e \<Rightarrow> Inl e
            | Inr s' \<Rightarrow> wire_nodes jsNodeMap ids s')
      else wire_nodes jsNodeMap ids s)"

text \<open>
  The whole function, with the state it leaves. The root is \<open>nodeMap[jsRootId]\<close>; the
  thrown \<open>Error('Failed to parse DOM tree')\<close> is \<open>MalformedSnapshot\<close>.
\<close>

definition constructDomTree_state ::
  "BuildDomTreeResult \<Rightarrow> error + (node_id \<times> (int \<rightharpoonup> node_id) \<times> dom_state)" where
  "constructDomTree_state evalPage =
     (let jsNodeMap = rmap evalPage;
          jsRootId = rootId evalPage;
          (nodeMap, selectorMap) = parse_entries jsNodeMap initial_dom_state Map.empty
      in case wire_nodes jsNodeMap (own_keys nodeMap) nodeMap of
           Inl e \<Rightarrow> Inl e
         | Inr s \<Rightarrow>
             (case get_property s jsRootId of
                Some (VNode root) \<Rightarrow>
                  if is_element (nodes s root) then Inr (root, selectorMap, s)
                  else Inl MalformedSnapshot
              | _ \<Rightarrow> Inl MalformedSnapshot))"

text \<open>
  What the function returns: the root reference, the selector map and the store holding
  the node objects.
\<close>

definition constructDomTree ::
  "BuildDomTreeResult \<Rightarrow> error + (node_id \<times> (int \<rightharpoonup> node_id) \<times> dom_store)" where
  "constructDomTree evalPage =
     (case constructDomTree_state evalPage of
        Inl e \<Rightarrow> Inl e
      | Inr (root, selectorMap, s) \<Rightarrow> Inr (root, selectorMap, nodes s))"

subsection \<open>Reading the reconstructed tree and the flat map\<close>

definition kids :: "dom_store \<Rightarrow> node_id \<Rightarrow> js_value list" where
  "kids st i = (case st i of Some (DOMElementNode tg as h cs p) \<Rightarrow> cs | _ \<Rightarrow> [])"

fun node_of :: "js_value \<Rightarrow> node_id option" where
  "node_of (VNode r) = Some r"
| "node_of v = None"

definition child_nodes :: "dom_store \<Rightarrow> node_id \<Rightarrow> node_id list" where
  "child_nodes st i = List.map_filter node_of (kids st i)"

definition parent_of :: "dom_store \<Rightarrow> node_id \<Rightarrow> node_id option" where
  "parent_of st i = (case st i of Some n \<Rightarrow> parent n | None \<Rightarrow> None)"

text \<open>
  The nodes of the tree below a node, in document order, following child references.
  The fuel bounds the depth, since a store may hold cyclic references.
\<close>

fun walk :: "(node_id \<Rightarrow> node_id list) \<Rightarrow> nat \<Rightarrow> node_id \<Rightarrow> node_id list" where
  "walk ch 0 i = []"
| "walk ch (Suc fuel) i = i # concat (map (walk ch fuel) (ch i))"

definition tree_nodes :: "dom_store \<Rightarrow> nat \<Rightarrow> node_id \<Rightarrow> node_id list" where
  "tree_nodes st fuel root = walk (child_nodes st) fuel root"

definition raw_children :: "BuildDomTreeResult \<Rightarrow> node_id \<Rightarrow> node_id list" where
  "raw_children ev i = childrenIds (map_of (rmap ev) i)"

fun raw_highlight :: "RawDomTreeNode \<Rightarrow> int option" where
  "raw_highlight (RawElementNode tg as cs h) = h"
| "raw_highlight _ = None"

text \<open>
  A valid flat node map: the keys are distinct, every entry holds a node, and the walk
  from the declared root along the child-id lists meets every entry exactly once (the
  map is the flattening of one tree). Highlight indices identify elements, so no two
  entries carry the same one.
\<close>

definition valid_flat_map :: "BuildDomTreeResult \<Rightarrow> bool" where
  "valid_flat_map ev =
     (distinct (map fst (rmap ev)) \<and>
      RawNull \<notin> set (map snd (rmap ev)) \<and>
      distinct (walk (raw_children ev) (Suc (length (rmap ev))) (rootId ev)) \<and>
      set (walk (raw_children ev) (Suc (length (rmap ev))) (rootId ev)) = set (map fst (rmap ev)))"

definition unique_highlights :: "BuildDomTreeResult \<Rightarrow> bool" where
  "unique_highlights ev = distinct (List.map_filter raw_highlight (map snd (rmap ev)))"

definition resolves_to_element :: "BuildDomTreeResult \<Rightarrow> bool" where
  "resolves_to_element ev = is_element (Option.bind (map_of (rmap ev) (rootId ev)) parse_node)"

text \<open>
  Ids that name no property a plain object inherits. The ids the probe hands out are
  decimal numerals, which are of this kind.
\<close>

definition inherited_name :: "string \<Rightarrow> bool" where
  "inherited_name k = (k = ''__proto__'' \<or> k \<in> set object_prototype_names)"

definition plain_ids :: "BuildDomTreeResult \<Rightarrow> bool" where
  "plain_ids ev =
     (\<not> inherited_name (rootId ev) \<and>
      list_all (\<lambda>e. \<not> inherited_name (fst e) \<and>
                     list_all (\<lambda>c. \<not> inherited_name c) (childrenIds (Some (snd e)))) (rmap ev))"

subsection \<open>Auxiliary notions for the snapshot proofs\<close>

text \<open>The nodes the first loop creates, and a node without its mutable links.\<close>

fun parsed :: "(node_id \<times> RawDomTreeNode) list \<Rightarrow> (node_id \<times> DOMBaseNode) list" where
  "parsed [] = []"
| "parsed ((i, d) # es) = (case parse_node d of None \<Rightarrow> parsed es | Some n \<Rightarrow> (i, n) # parsed es)"

fun erase :: "DOMBaseNode \<Rightarrow> DOMBaseNode" where
  "erase (DOMTextNode t v p) = DOMTextNode t v None"
| "erase (DOMElementNode tg as h cs p) = DOMElementNode tg as h [] None"

text \<open>The highlight indices carried by the entries, in entry order.\<close>

definition highlights :: "(node_id \<times> RawDomTreeNode) list \<Rightarrow> int list" where
  "highlights es = List.map_filter raw_highlight (map snd es)"

text \<open>The snapshot of the spec's example: root "0" with children "1" and "2".\<close>

definition snapshot_example :: BuildDomTreeResult where
  "snapshot_example =
     \<lparr>rootId = ''0'',
      rmap = [(''0'', RawElementNode ''div'' [] [''1'', ''2''] None),
              (''1'', RawTextNode ''hi'' True),
              (''2'', RawElementNode ''a'' [] [] (Some 5))]\<rparr>"

text \<open>
  Two snapshots with the id \<open>__proto__\<close>. In the first it is the declared root, an element
  with the text node "1" as its child. In the second the declared root id \<open>parent\<close> is no
  key of the map, and the element "p" lists \<open>__proto__\<close> as its child.
\<close>

definition proto_root_snapshot :: BuildDomTreeResult where
  "proto_root_snapshot =
     \<lparr>rootId = ''__proto__'',
      rmap = [(''1'', RawTextNode ''hi'' True),
              (''__proto__'', RawElementNode ''div'' [] [''1''] None)]\<rparr>"

definition absent_root_snapshot :: BuildDomTreeResult where
  "absent_root_snapshot =
     \<lparr>rootId = ''parent'',
      rmap = [(''__proto__'', RawElementNode ''span'' [] [] None),
              (''p'', RawElementNode ''div'' [] [''__proto__''] None)]\<rparr>"

text \<open>
  A node map that behaves as a map from ids to nodes: its prototype is the unmodified
  \<open>Object.prototype\<close> and its own properties are the stored nodes.
\<close>

definition plain_state :: "dom_state \<Rightarrow> bool" where
  "plain_state s = (proto s = None \<and> prototype_parent s = None \<and> dom (nodes s) = set (own_keys s))"

section \<open>Navigator: action payload and batch execution (doMultiAction)\<close>

text \<open>
  Values of the model's raw output. The fields of an object are listed in the order
  \<open>Object.keys\<close> yields them.
\<close>

datatype json =
    JNull
  | JUndefined
  | JBool bool
  | JNum int
  | JStr string
  | JArr "json list"
  | JObj "(string \<times> json) list"

fun truthy :: "json \<Rightarrow> bool" where
  "truthy JNull = False"
| "truthy JUndefined = False"
| "truthy (JBool b) = b"
| "truthy (JNum n) = (n \<noteq> 0)"
| "truthy (JStr s) = (s \<noteq> [])"
| "truthy (JArr xs) = True"
| "truthy (JObj kvs) = True"

text \<open>
  The head of \<open>doMultiAction\<close>: an array keeps its non-null items, a string is handed
  to \<open>JSON.parse\<close> (a parameter here: \<open>None\<close> when it throws), whose failure is
  rethrown as \<open>Error('Invalid action output format')\<close>; any other truthy value becomes
  a one-element list, and a falsy value leaves the initial empty list.
\<close>

fun normalize_actions :: "(string \<Rightarrow> json option) \<Rightarrow> json \<Rightarrow> error + json" where
  "normalize_actions JSON_parse (JArr xs) = Inr (JArr (filter (\<lambda>it. it \<noteq> JNull) xs))"
| "normalize_actions JSON_parse (JStr s) =
     (case JSON_parse s of None \<Rightarrow> Inl InvalidActionPayload | Some v \<Rightarrow> Inr v)"
| "normalize_actions JSON_parse a = (if truthy a then Inr (JArr [a]) else Inr (JArr []))"

text \<open>\<open>for (const action of actions)\<close>: arrays and strings are iterable, nothing else here is.\<close>

fun iterate :: "json \<Rightarrow> error + json list" where
  "iterate (JArr xs) = Inr xs"
| "iterate (JStr s) = Inr (map (\<lambda>c. JStr [c]) s)"
| "iterate v = Inl TypeError"

definition action_list :: "(string \<Rightarrow> json option) \<Rightarrow> json \<Rightarrow> error + json list" where
  "action_list JSON_parse a =
     (case normalize_actions JSON_parse a of Inl e \<Rightarrow> Inl e | Inr v \<Rightarrow> iterate v)"

text \<open>
  Modelled from the spec: the class \<open>ActionResult\<close> (chrome-extension/src/background/agent/types)
  is imported and its declaration is not part of the sources at hand. The spec's data
  model gives an action result an optional extracted content, an optional error, a done
  flag and a retain-in-history flag. \<open>error_result\<close> is the result
  \<open>new ActionResult({error, includeInMemory: true})\<close> built for a caught error.
\<close>

record ActionResult =
  isDone :: bool
  extractedContent :: "string option"
  error :: "string option"
  includeInMemory :: bool

definition error_result :: "string \<Rightarrow> ActionResult" where
  "error_result msg =
     \<lparr>isDone = False, extractedContent = None, error = Some msg, includeInMemory = True\<rparr>"

text \<open>
  What the surroundings answer while one action of the batch is processed: whether the
  task is paused or stopped before the call, what the registry and the action do, and
  whether the task is paused or stopped after a successful call.
\<close>

datatype call_outcome =
    NotRegistered
  | CallThrows string
  | ReturnsUndefined
  | Returns ActionResult

record attempt =
  halted_before :: bool
  outcome :: call_outcome
  halted_after :: bool

datatype batch_outcome = Returned "ActionResult list" | Thrown error

text \<open>The message of the error caught for a failing action named \<open>name\<close>.\<close>

fun failure_message :: "string \<Rightarrow> call_outcome \<Rightarrow> string option" where
  "failure_message name NotRegistered = Some (''Action '' @ name @ '' not exists'')"
| "failure_message name (CallThrows msg) = Some msg"
| "failure_message name ReturnsUndefined = Some (''Action '' @ name @ '' returned undefined'')"
| "failure_message name (Returns res) = None"

text \<open>
  The execution loop over the batch, for the action names paired with what the
  surroundings answer. Besides the outcome it returns the names of the actions whose
  handler was called, in call order. An error caught for an action is pushed as a result;
  the error count is checked after the push.
\<close>

fun run_actions ::
  "(string \<times> attempt) list \<Rightarrow> ActionResult list \<Rightarrow> nat \<Rightarrow> string list
   \<Rightarrow> batch_outcome \<times> string list" where
  "run_actions [] results errCount called = (Returned results, called)"
| "run_actions ((name, a) # rest) results errCount called =
     (if halted_before a then (Returned results, called)
      else case outcome a of
        Returns res \<Rightarrow>
          (if halted_after a then (Returned (results @ [res]), called @ [name])
           else run_actions rest (results @ [res]) errCount (called @ [name]))
      | NotRegistered \<Rightarrow>
          (if errCount + 1 > 3 then (Thrown TooManyErrors, called)
           else run_actions rest
                  (results @ [error_result (the (failure_message name NotRegistered))])
                  (errCount + 1) called)
      | f \<Rightarrow>
          (if errCount + 1 > 3 then (Thrown TooManyErrors, called @ [name])
           else run_actions rest
                  (results @ [error_result (the (failure_message name f))])
                  (errCount + 1) (called @ [name])))"

text \<open>
  Name and arguments of a batch entry: \<open>Object.keys(action)[0]\<close> and
  \<open>action[name]\<close>. \<open>Object.keys\<close> raises on null and undefined; a missing name reads
  the property \<open>undefined\<close>, and a missing property is undefined.
\<close>

fun first_key :: "json \<Rightarrow> error + string option" where
  "first_key JNull = Inl TypeError"
| "first_key JUndefined = Inl TypeError"
| "first_key (JObj kvs) = Inr (case kvs of [] \<Rightarrow> None | kv # rest \<Rightarrow> Some (fst kv))"
| "first_key (JArr xs) = Inr (if xs = [] then None else Some ''0'')"
| "first_key (JStr s) = Inr (if s = [] then None else Some ''0'')"
| "first_key v = Inr None"

definition display_name :: "string option \<Rightarrow> string" where
  "display_name name = (case name of None \<Rightarrow> ''undefined'' | Some k \<Rightarrow> k)"

fun property :: "json \<Rightarrow> string option \<Rightarrow> json" where
  "property (JObj kvs) name =
     (case map_of kvs (display_name name) of None \<Rightarrow> JUndefined | Some v \<Rightarrow> v)"
| "property (JArr xs) name = (if name = Some ''0'' \<and> xs \<noteq> [] then hd xs else JUndefined)"
| "property (JStr s) name = (if name = Some ''0'' \<and> s \<noteq> [] then JStr [hd s] else JUndefined)"
| "property v name = JUndefined"

text \<open>
  The logging loop that precedes the execution loop: it reads \<open>args.intent\<close> of every
  entry, which raises when the arguments are null or undefined. It returns the names.
\<close>

fun log_actions :: "json list \<Rightarrow> error + string list" where
  "log_actions [] = Inr []"
| "log_actions (action # rest) =
     (case first_key action of
        Inl e \<Rightarrow> Inl e
      | Inr name \<Rightarrow>
          if property action name = JNull \<or> property action name = JUndefined then Inl TypeError
          else (case log_actions rest of Inl e \<Rightarrow> Inl e
                | Inr names \<Rightarrow> Inr (display_name name # names)))"

text \<open>
  The patched \<open>doMultiAction\<close> as a whole, for the \<open>action\<close> field of the response;
  \<open>env i\<close> is what the surroundings answer for the entry at position \<open>i\<close>.
\<close>

definition doMultiAction ::
  "(string \<Rightarrow> json option) \<Rightarrow> (nat \<Rightarrow> attempt) \<Rightarrow> json \<Rightarrow> batch_outcome \<times> string list" where
  "doMultiAction JSON_parse env action =
     (case action_list JSON_parse action of
        Inl e \<Rightarrow> (Thrown e, [])
      | Inr actions \<Rightarrow>
          (case log_actions actions of
             Inl e \<Rightarrow> (Thrown e, [])
           | Inr names \<Rightarrow> run_actions (zip names (map env [0..<length names])) [] 0 []))"

definition failing :: "string \<times> attempt \<Rightarrow> bool" where
  "failing na = (failure_message (fst na) (outcome (snd na)) \<noteq> None)"

definition unhalted :: "string \<times> attempt \<Rightarrow> bool" where
  "unhalted na = (\<not> halted_before (snd na) \<and> \<not> halted_after (snd na))"

text \<open>The result the loop records for one processed action.\<close>

definition was_called :: "string \<times> attempt \<Rightarrow> bool" where
  "was_called na = (outcome (snd na) \<noteq> NotRegistered)"

definition recorded :: "string \<times> attempt \<Rightarrow> ActionResult" where
  "recorded na =
     (case outcome (snd na) of Returns res \<Rightarrow> res
      | f \<Rightarrow> error_result (the (failure_message (fst na) f)))"

section \<open>Orchestration loop (runPlannerAndNavigator)\<close>

text \<open>Strings: \<open>String.prototype.includes\<close>, \<open>toLowerCase\<close> on ASCII letters, decimal numerals.\<close>

fun str_includes :: "string \<Rightarrow> string \<Rightarrow> bool" where
  "str_includes [] sub = (sub = [])"
| "str_includes (c # cs) sub = (prefix sub (c # cs) \<or> str_includes cs sub)"

definition lower_char :: "char \<Rightarrow> char" where
  "lower_char c =
     (if 65 \<le> (of_char c :: nat) \<and> (of_char c :: nat) \<le> 90
      then char_of ((of_char c :: nat) + 32) else c)"

definition toLowerCase :: "string \<Rightarrow> string" where
  "toLowerCase s = map lower_char s"

fun string_of_nat :: "nat \<Rightarrow> string" where
  "string_of_nat n =
     (if n < 10 then [char_of (48 + n)]
      else string_of_nat (n div 10) @ [char_of (48 + n mod 10)])"

declare string_of_nat.simps [simp del]

text \<open>
  The budgets come from the agent options (the source passes the literals 10 and 3);
  \<open>structuredOutput\<close> is the optional command-line setting.
\<close>

record loop_config =
  maxSteps :: nat
  maxFailures :: nat
  structuredOutput :: "bool option"

text \<open>
  The loop variables, and the \<open>withStructuredOutput\<close> flags of the two agents, which the
  loop writes.
\<close>

record loop_state =
  stepCount :: nat
  doneFlag :: bool
  consecutiveFailures :: nat
  plannerStructured :: bool
  navigatorStructured :: bool

text \<open>
  What \<open>navigator.execute()\<close> does in one iteration: it returns an output with an
  optional error and an optional \<open>result.done\<close>, or it throws with a message.
\<close>

datatype exec_outcome = Out "string option" "bool option" | Throws string

datatype step_result = Continue loop_state | Break loop_state | Raise string loop_state

definition truthy_str :: "string option \<Rightarrow> bool" where
  "truthy_str e = (case e of None \<Rightarrow> False | Some s \<Rightarrow> s \<noteq> [])"

definition schemaFailure :: "string \<Rightarrow> bool" where
  "schemaFailure msg =
     (str_includes msg ''JSON schema conversion failed'' \<or>
      str_includes (toLowerCase msg) ''tool calling'')"

definition max_failures_message :: "nat \<Rightarrow> string \<Rightarrow> string" where
  "max_failures_message n e =
     ''Max failures ('' @ string_of_nat n @ '') reached. Last error: '' @ e"

text \<open>The \<open>catch\<close> block of the loop body, for a caught error with message \<open>msg\<close>.\<close>

definition catch_block :: "loop_config \<Rightarrow> loop_state \<Rightarrow> string \<Rightarrow> step_result" where
  "catch_block cfg st msg =
     (if structuredOutput cfg \<noteq> Some False \<and> schemaFailure msg \<and> consecutiveFailures st = 0
      then Continue (st\<lparr>plannerStructured := False, navigatorStructured := False,
                        consecutiveFailures := 0\<rparr>)
      else
        (let st1 = st\<lparr>consecutiveFailures := consecutiveFailures st + 1\<rparr> in
         if consecutiveFailures st1 \<ge> maxFailures cfg
         then Raise (max_failures_message (maxFailures cfg) msg) st1
         else Continue (st1\<lparr>stepCount := stepCount st1 + 1\<rparr>)))"

text \<open>
  The \<open>try\<close> block. The \<open>throw\<close> after the increment on \<open>out.error\<close> stands inside the
  \<open>try\<close>, so it is caught by the \<open>catch\<close> block of the same iteration.
\<close>

definition loop_body :: "loop_config \<Rightarrow> loop_state \<Rightarrow> exec_outcome \<Rightarrow> step_result" where
  "loop_body cfg st out =
     (case out of
        Throws msg \<Rightarrow> catch_block cfg st msg
      | Out e d \<Rightarrow>
          if truthy_str e then
            (let st1 = st\<lparr>consecutiveFailures := consecutiveFailures st + 1\<rparr> in
             if consecutiveFailures st1 \<ge> maxFailures cfg
             then catch_block cfg st1 (max_failures_message (maxFailures cfg) (the e))
             else Continue (st1\<lparr>stepCount := stepCount st1 + 1\<rparr>))
          else
            (let st1 = st\<lparr>consecutiveFailures := 0\<rparr> in
             if d = Some True then Break (st1\<lparr>doneFlag := True\<rparr>)
             else Continue (st1\<lparr>stepCount := stepCount st1 + 1\<rparr>)))"

text \<open>
  The function returns \<open>{plan, done}\<close> or throws. The loop consumes one outcome of
  \<open>navigator.execute()\<close> per iteration from a script; \<open>None\<close> means that the script ended
  while the loop was still running. The last component counts the consumed outcomes.
\<close>

datatype loop_result = Result bool | Failed string

definition running :: "loop_config \<Rightarrow> loop_state \<Rightarrow> bool" where
  "running cfg st =
     (stepCount st < maxSteps cfg \<and> \<not> doneFlag st \<and> consecutiveFailures st < maxFailures cfg)"

fun run_loop ::
  "loop_config \<Rightarrow> loop_state \<Rightarrow> exec_outcome list \<Rightarrow> nat
   \<Rightarrow> (loop_result \<times> loop_state \<times> nat) option" where
  "run_loop cfg st [] k = (if running cfg st then None else Some (Result (doneFlag st), st, k))"
| "run_loop cfg st (out # rest) k =
     (if running cfg st then
        (case loop_body cfg st out of
           Continue st' \<Rightarrow> run_loop cfg st' rest (Suc k)
         | Break st' \<Rightarrow> Some (Result (doneFlag st'), st', Suc k)
         | Raise msg st' \<Rightarrow> Some (Failed msg, st', Suc k))
      else Some (Result (doneFlag st), st, k))"

definition initial_state :: "bool \<Rightarrow> bool \<Rightarrow> loop_state" where
  "initial_state p n =
     \<lparr>stepCount = 0, doneFlag = False, consecutiveFailures = 0,
      plannerStructured = p, navigatorStructured = n\<rparr>"

text \<open>The terminal states of the spec, read off the way the function ends.\<close>

datatype terminal = DONE | FAILED | INCOMPLETE

fun terminal_of :: "loop_result \<Rightarrow> terminal" where
  "terminal_of (Result True) = DONE"
| "terminal_of (Result False) = INCOMPLETE"
| "terminal_of (Failed msg) = FAILED"

text \<open>A step output that reports completion: no error and \<open>result.done\<close> true.\<close>

fun reports_done :: "exec_outcome \<Rightarrow> bool" where
  "reports_done (Out e d) = (\<not> truthy_str e \<and> d = Some True)"
| "reports_done (Throws msg) = False"

text \<open>Outcomes other than a thrown schema failure: each of them uses up a step or ends the loop.\<close>

fun ordinary :: "exec_outcome \<Rightarrow> bool" where
  "ordinary (Throws msg) = (\<not> schemaFailure msg)"
| "ordinary (Out e d) = True"

section \<open>Structured-output fallback (patched NavigatorAgent.invoke)\<close>

text \<open>
  The patched \<open>invoke\<close> of the navigator. The two underlying calls are answered by the
  surroundings: \<open>original\<close> is the outcome of the agent's own \<open>invoke\<close>, which constrains
  the response to the schema, and \<open>base\<close> the outcome of \<open>BaseAgent.prototype.invoke\<close>
  with the flag off, which extracts the response from plain output (\<open>Inl\<close> is a thrown
  message). The result is the new flag, the parsers used in order, and the outcome.
\<close>

datatype parser = StructuredSchema | Extraction

record 'r invoke_env =
  original :: "string + 'r"
  base :: "string + 'r"

definition invoke_schemaFailure :: "string \<Rightarrow> bool" where
  "invoke_schemaFailure msg =
     (str_includes msg ''JSON schema conversion failed'' \<or> str_includes msg ''structured output'')"

definition invoke :: "bool \<Rightarrow> 'r invoke_env \<Rightarrow> bool \<times> parser list \<times> (string + 'r)" where
  "invoke withStructuredOutput env =
     (if withStructuredOutput then
        (case original env of
           Inr r \<Rightarrow> (True, [StructuredSchema], Inr r)
         | Inl msg \<Rightarrow>
             if invoke_schemaFailure msg then (False, [StructuredSchema, Extraction], base env)
             else (True, [StructuredSchema], Inl msg))
      else (False, [Extraction], base env))"

text \<open>
  What happens to the flags of the two agents during one task: navigator invocations, and
  the fallback branch of the loop, which switches both agents off.
\<close>

datatype 'r task_event = NavigatorInvoke "'r invoke_env" | LoopFallback

fun task_step :: "bool \<times> bool \<Rightarrow> 'r task_event \<Rightarrow> (bool \<times> bool) \<times> parser list" where
  "task_step (p, n) (NavigatorInvoke env) = ((p, fst (invoke n env)), fst (snd (invoke n env)))"
| "task_step (p, n) LoopFallback = ((False, False), [])"

fun run_events :: "bool \<times> bool \<Rightarrow> 'r task_event list \<Rightarrow> (bool \<times> bool) \<times> parser list list" where
  "run_events s [] = (s, [])"
| "run_events s (e # es) =
     (let (s1, ps) = task_step s e; (s2, tr) = run_events s1 es in (s2, ps # tr))"

text \<open>The number of events at which a flag goes from on to off.\<close>

fun downgrades :: "((bool \<times> bool) \<Rightarrow> bool) \<Rightarrow> bool \<times> bool \<Rightarrow> 'r task_event list \<Rightarrow> nat" where
  "downgrades flag s [] = 0"
| "downgrades flag s (e # es) =
     (if flag s \<and> \<not> flag (fst (task_step s e)) then 1 else 0)
     + downgrades flag (fst (task_step s e)) es"

text \<open>
  The fallback branch of the \<open>catch\<close> block is taken for a thrown error that satisfies its
  guard. (The error rethrown after an increment on \<open>out.error\<close> reaches the \<open>catch\<close> block
  with a positive counter and never takes it.) \<open>fallbacks\<close> counts the iterations of a
  run that take the branch.
\<close>

fun takes_fallback :: "loop_config \<Rightarrow> loop_state \<Rightarrow> exec_outcome \<Rightarrow> bool" where
  "takes_fallback cfg st (Throws msg) =
     (structuredOutput cfg \<noteq> Some False \<and> schemaFailure msg \<and> consecutiveFailures st = 0)"
| "takes_fallback cfg st (Out e d) = False"

fun fallbacks :: "loop_config \<Rightarrow> loop_state \<Rightarrow> exec_outcome list \<Rightarrow> nat" where
  "fallbacks cfg st [] = 0"
| "fallbacks cfg st (out # rest) =
     (if running cfg st then
        (case loop_body cfg st out of
           Continue st' \<Rightarrow> (if takes_fallback cfg st out then 1 else 0) + fallbacks cfg st' rest
         | Break st' \<Rightarrow> 0
         | Raise msg st' \<Rightarrow> 0)
      else 0)"

text \<open>
  What holds each time the loop condition is evaluated: the task is not done, the failure
  counter is below its budget and the step counter within its budget.
\<close>

definition at_loop_head :: "loop_config \<Rightarrow> loop_state \<Rightarrow> bool" where
  "at_loop_head cfg st =
     (\<not> doneFlag st \<and> consecutiveFailures st < maxFailures cfg \<and> stepCount st \<le> maxSteps cfg)"

section \<open>Scrolling with a zero amount\<close>

text \<open>
  C10: \<open>scrollDown(0)\<close> and \<open>scrollUp(0)\<close> scroll by one viewport height, down and up,
  exactly as the calls with the amount omitted do.
\<close>

theorem scroll_zero_is_viewport:
  "scrollDown (Some 0) h = ScrollBy 0 h \<and> scrollDown (Some 0) h = scrollDown None h \<and>
   scrollUp (Some 0) h = ScrollBy 0 (- h) \<and> scrollUp (Some 0) h = scrollUp None h"
  by (simp add: scrollDown_def scrollUp_def truthy_num_def)

section \<open>Tab list operations\<close>

lemma tab_of_id_eq:
  "tab_of_id s t = (if 1 \<le> t \<and> t \<le> int (length (pages s)) then Some (pages s ! nat (t - 1)) else None)"
  by (auto simp: tab_of_id_def switchTab_def Let_def)

lemma splice_start_le: "splice_start n i \<le> n"
  by (auto simp: splice_start_def)

lemma length_splice1:
  "length (splice1 xs i) = (if splice_start (length xs) i < length xs then length xs - 1 else length xs)"
  using splice_start_le[of "length xs" i] by (auto simp: splice1_def Let_def)

lemma splice1_nth_before:
  "j < splice_start (length xs) i \<Longrightarrow> splice1 xs i ! j = xs ! j"
  using splice_start_le[of "length xs" i] by (simp add: splice1_def Let_def nth_append)

lemma splice1_nth_after:
  "splice_start (length xs) i \<le> j \<Longrightarrow> Suc j < length xs \<Longrightarrow> splice1 xs i ! j = xs ! Suc j"
  using splice_start_le[of "length xs" i] by (auto simp: splice1_def Let_def nth_append min_def)

lemma pages_closeTab: "pages (fst (closeTab s u)) = splice1 (pages s) (u - 1)"
  by (simp add: closeTab_def Let_def)

lemma closeTab_ids_before:
  "t \<le> int (splice_start (length (pages s)) (u - 1)) \<Longrightarrow>
   tab_of_id (fst (closeTab s u)) t = tab_of_id s t"
  using splice_start_le[of "length (pages s)" "u - 1"]
  by (auto simp: tab_of_id_eq pages_closeTab length_splice1 splice1_nth_before)

lemma closeTab_ids_after:
  assumes "int (splice_start (length (pages s)) (u - 1)) + 1 < t"
  shows "tab_of_id (fst (closeTab s u)) (t - 1) = tab_of_id s t"
proof -
  let ?k = "splice_start (length (pages s)) (u - 1)"
  have kle: "?k \<le> length (pages s)" by (rule splice_start_le)
  have t2: "2 \<le> t" using assms by simp
  show ?thesis
  proof (cases "t \<le> int (length (pages s))")
    case True
    then have klt: "?k < length (pages s)" using assms by simp
    have j: "?k \<le> nat (t - 2)" "Suc (nat (t - 2)) < length (pages s)"
      using assms True by simp_all
    have "splice1 (pages s) (u - 1) ! nat (t - 2) = pages s ! Suc (nat (t - 2))"
      by (rule splice1_nth_after[OF j])
    moreover have "Suc (nat (t - 2)) = nat (t - 1)" using t2 by simp
    moreover have "t - 1 - 1 = t - 2" by simp
    ultimately show ?thesis
      using True t2 klt by (simp add: tab_of_id_eq pages_closeTab length_splice1)
  next
    case False
    then show ?thesis
      using kle assms by (auto simp: tab_of_id_eq pages_closeTab length_splice1)
  qed
qed

lemma splice1_zero: "splice1 xs (-1) = butlast xs"
  by (cases xs rule: rev_cases) (auto simp: splice1_def splice_start_def Let_def butlast_conv_take)

lemma splice1_beyond: "int (length xs) \<le> i \<Longrightarrow> splice1 xs i = xs"
  by (auto simp: splice1_def splice_start_def Let_def)

lemma openTab_ids:
  "openTab s p loaded = Inr s' \<Longrightarrow> tab_of_id s t = Some q \<Longrightarrow> tab_of_id s' t = Some q"
  by (auto simp: openTab_def tab_of_id_eq nth_append split: if_splits)

lemma switchTab_ids:
  "switchTab s u = Inr (s', q) \<Longrightarrow> tab_of_id s' t = tab_of_id s t"
  by (auto simp: switchTab_def tab_of_id_eq Let_def split: if_splits)

lemma getTabInfos_ids:
  "i < length (pages s) \<Longrightarrow>
   getTabInfos s ! i = (int i + 1, pages s ! i) \<and> tab_of_id s (int i + 1) = Some (pages s ! i)"
  by (simp add: getTabInfos_def tab_of_id_eq)

lemma length_getTabInfos: "length (getTabInfos s) = length (pages s)"
  by (simp add: getTabInfos_def)

text \<open>
  C9, as stated, fails in its last part: closing the only open tab (here through the
  unresolvable id 0) leaves an empty tab list and the current index 0, which lies in no
  empty list.
\<close>

theorem closeTab_index_not_in_empty_list:
  "pages (fst (closeTab \<lparr>pages = [7::nat], currentIdx = 0\<rparr> 0)) = [] \<and>
   currentIdx (fst (closeTab \<lparr>pages = [7::nat], currentIdx = 0\<rparr> 0)) = 0 \<and>
   \<not> (currentIdx (fst (closeTab \<lparr>pages = [7::nat], currentIdx = 0\<rparr> 0))
        < int (length (pages (fst (closeTab \<lparr>pages = [7::nat], currentIdx = 0\<rparr> 0)))))"
  by (simp add: closeTab_def splice1_def splice_start_def page_at_def Let_def)

text \<open>
  C9 (amended): \<open>closeTab\<close> has no failing branch for an unresolvable id. For tab id 0
  it drops the last page of the list and closes no page; for an id greater than the number
  of open tabs it leaves the list unchanged and closes no page; and in every case the
  current index ends at most \<open>max 0 (length - 1)\<close>: inside the remaining list when that
  list is non-empty, and 0 when it is empty.
\<close>

theorem closeTab_unresolvable:
  "pages (fst (closeTab s 0)) = butlast (pages s) \<and> snd (closeTab s 0) = None \<and>
   (int (length (pages s)) < u \<longrightarrow>
      pages (fst (closeTab s u)) = pages s \<and> snd (closeTab s u) = None) \<and>
   (0 \<le> currentIdx s \<longrightarrow>
      0 \<le> currentIdx (fst (closeTab s u)) \<and>
      currentIdx (fst (closeTab s u)) \<le> max 0 (int (length (pages (fst (closeTab s u)))) - 1) \<and>
      (pages (fst (closeTab s u)) \<noteq> [] \<longrightarrow>
         currentIdx (fst (closeTab s u)) < int (length (pages (fst (closeTab s u))))) \<and>
      (pages (fst (closeTab s u)) = [] \<longrightarrow> currentIdx (fst (closeTab s u)) = 0))"
proof -
  have a: "pages (fst (closeTab s 0)) = butlast (pages s)"
    using splice1_zero[of "pages s"] by (simp add: pages_closeTab)
  have b: "snd (closeTab s 0) = None"
    by (simp add: closeTab_def page_at_def Let_def)
  have c: "int (length (pages s)) < u \<longrightarrow>
      pages (fst (closeTab s u)) = pages s \<and> snd (closeTab s u) = None"
    by (auto simp: pages_closeTab splice1_beyond closeTab_def page_at_def Let_def)
  have d: "currentIdx (fst (closeTab s u)) =
     (if currentIdx s \<ge> int (length (pages (fst (closeTab s u))))
      then max 0 (int (length (pages (fst (closeTab s u)))) - 1) else currentIdx s)"
    by (simp add: closeTab_def Let_def)
  show ?thesis
    apply (intro conjI impI)
    using a b c apply simp_all[4]
    using d apply (auto split: if_splits)
    done
qed

theorem closeTab_unresolvable_witness:
  "pages (fst (closeTab \<lparr>pages = [1::nat, 2, 3], currentIdx = 2\<rparr> 0)) = [1, 2] \<and>
   currentIdx (fst (closeTab \<lparr>pages = [1::nat, 2, 3], currentIdx = 2\<rparr> 0)) = 1 \<and>
   pages (fst (closeTab \<lparr>pages = [1::nat, 2, 3], currentIdx = 2\<rparr> 7)) = [1, 2, 3] \<and>
   currentIdx (fst (closeTab \<lparr>pages = [1::nat, 2, 3], currentIdx = 2\<rparr> 7)) = 2"
  using closeTab_unresolvable[of "\<lparr>pages = [1::nat, 2, 3], currentIdx = 2\<rparr>" 7]
  by (simp add: closeTab_def splice1_def splice_start_def page_at_def Let_def)

text \<open>
  C6, as stated, fails: tab ids are positions in the page array, so closing tab 1 of two
  tabs moves the tab that stays open from id 2 to id 1.
\<close>

theorem closeTab_renumbers_later_tabs:
  "tab_of_id \<lparr>pages = [10::nat, 20], currentIdx = 0\<rparr> 2 = Some 20 \<and>
   20 \<in> set (pages (fst (closeTab \<lparr>pages = [10::nat, 20], currentIdx = 0\<rparr> 1))) \<and>
   tab_of_id (fst (closeTab \<lparr>pages = [10::nat, 20], currentIdx = 0\<rparr> 1)) 2 = None \<and>
   tab_of_id (fst (closeTab \<lparr>pages = [10::nat, 20], currentIdx = 0\<rparr> 1)) 1 = Some 20"
  by (simp add: tab_of_id_def switchTab_def closeTab_def splice1_def splice_start_def
      page_at_def Let_def)

text \<open>
  C6 (amended): a tab id is the 1-based position of the tab in the adapter's page list, as
  \<open>getTabInfos\<close> reports it and \<open>switchTab\<close> resolves it. \<open>openTab\<close> and
  \<open>switchTab\<close> change the id of no open tab. \<open>closeTab\<close> of an open tab \<open>u\<close>
  keeps the ids below \<open>u\<close> and lowers every id above \<open>u\<close> by one.
\<close>

theorem tab_ids_positional:
  "(tab_of_id s t = Some q \<longrightarrow>
      1 \<le> t \<and> t \<le> int (length (pages s)) \<and> pages s ! nat (t - 1) = q) \<and>
   (i < length (pages s) \<longrightarrow>
      getTabInfos s ! i = (int i + 1, pages s ! i) \<and>
      tab_of_id s (int i + 1) = Some (pages s ! i)) \<and>
   (openTab s p loaded = Inr s' \<and> tab_of_id s t = Some q \<longrightarrow> tab_of_id s' t = Some q) \<and>
   (switchTab s v = Inr (s'', r) \<longrightarrow> tab_of_id s'' t = tab_of_id s t) \<and>
   (1 \<le> u \<and> u \<le> int (length (pages s)) \<longrightarrow>
      (t1 < u \<longrightarrow> tab_of_id (fst (closeTab s u)) t1 = tab_of_id s t1) \<and>
      (u < t2 \<longrightarrow> tab_of_id (fst (closeTab s u)) (t2 - 1) = tab_of_id s t2))"
proof (intro conjI impI)
  assume "tab_of_id s t = Some q"
  then show "1 \<le> t" "t \<le> int (length (pages s))" "pages s ! nat (t - 1) = q"
    by (simp_all add: tab_of_id_eq split: if_splits)
next
  assume "i < length (pages s)"
  then show "getTabInfos s ! i = (int i + 1, pages s ! i)"
    "tab_of_id s (int i + 1) = Some (pages s ! i)"
    using getTabInfos_ids[of i s] by simp_all
next
  assume "openTab s p loaded = Inr s' \<and> tab_of_id s t = Some q"
  then show "tab_of_id s' t = Some q" using openTab_ids[of s p loaded s' t q] by simp
next
  assume "switchTab s v = Inr (s'', r)"
  then show "tab_of_id s'' t = tab_of_id s t" by (rule switchTab_ids)
next
  assume u: "1 \<le> u \<and> u \<le> int (length (pages s))"
  then have k: "int (splice_start (length (pages s)) (u - 1)) = u - 1"
    by (simp add: splice_start_def)
  { assume "t1 < u"
    then show "tab_of_id (fst (closeTab s u)) t1 = tab_of_id s t1"
      using k by (intro closeTab_ids_before) simp }
  { assume "u < t2"
    then show "tab_of_id (fst (closeTab s u)) (t2 - 1) = tab_of_id s t2"
      using k by (intro closeTab_ids_after) simp }
qed

theorem tab_ids_positional_witness:
  "tab_of_id \<lparr>pages = [10::nat, 20, 30], currentIdx = 0\<rparr> 3 = Some 30 \<and>
   getTabInfos \<lparr>pages = [10::nat, 20, 30], currentIdx = 0\<rparr> ! 2 = (3, 30) \<and>
   openTab \<lparr>pages = [10::nat, 20, 30], currentIdx = 0\<rparr> 40 True
     = Inr \<lparr>pages = [10, 20, 30, 40], currentIdx = 3\<rparr> \<and>
   tab_of_id \<lparr>pages = [10::nat, 20, 30, 40], currentIdx = 3\<rparr> 3 = Some 30 \<and>
   switchTab \<lparr>pages = [10::nat, 20, 30], currentIdx = 0\<rparr> 2
     = Inr (\<lparr>pages = [10, 20, 30], currentIdx = 1\<rparr>, 20) \<and>
   tab_of_id \<lparr>pages = [10::nat, 20, 30], currentIdx = 1\<rparr> 3 = Some 30 \<and>
   tab_of_id (fst (closeTab \<lparr>pages = [10::nat, 20, 30], currentIdx = 0\<rparr> 2)) 1 = Some 10 \<and>
   tab_of_id (fst (closeTab \<lparr>pages = [10::nat, 20, 30], currentIdx = 0\<rparr> 2)) 2 = Some 30"
  using tab_ids_positional[of "\<lparr>pages = [10::nat, 20, 30], currentIdx = 0\<rparr>" 3 30 2 40 True
      "\<lparr>pages = [10, 20, 30, 40], currentIdx = 3\<rparr>" 2
      "\<lparr>pages = [10, 20, 30], currentIdx = 1\<rparr>" 20 2 1 3]
  by (simp add: tab_of_id_def switchTab_def openTab_def getTabInfos_def Let_def)

section \<open>DOM snapshot indexer: the two loops\<close>

lemma parsed_key_in: "(i, n) \<in> set (parsed es) \<Longrightarrow> i \<in> fst ` set es"
  by (induction es) (force split: option.splits)+

lemma parsed_keys_subset: "fst ` set (parsed es) \<subseteq> fst ` set es"
  using parsed_key_in by fastforce

lemma distinct_parsed: "distinct (map fst es) \<Longrightarrow> distinct (map fst (parsed es))"
proof (induction es)
  case Nil
  show ?case by simp
next
  case (Cons e es)
  obtain j d where e: "e = (j, d)" by (cases e)
  have "j \<notin> fst ` set (parsed es)" using Cons.prems parsed_keys_subset[of es] e by auto
  then show ?case using Cons e by (simp split: option.splits)
qed

lemma map_of_parsed:
  "distinct (map fst es) \<Longrightarrow> map_of (parsed es) i = Option.bind (map_of es i) parse_node"
proof (induction es)
  case Nil
  show ?case by simp
next
  case (Cons e es)
  obtain j d where e: "e = (j, d)" by (cases e)
  have "j \<notin> fst ` set (parsed es)" using Cons.prems parsed_keys_subset[of es] e by auto
  then have "map_of (parsed es) j = None" by (simp add: map_of_eq_None_iff)
  then show ?case using Cons e by (auto split: option.splits)
qed

lemma parsed_erase: "map_of (parsed es) i = Some n \<Longrightarrow> erase n = n \<and> parent n = None"
  apply (induction es) apply (auto split: option.splits if_splits)
  subgoal for d es by (cases d) auto
  subgoal for d es by (cases d) auto
  done

lemma nodes_assign_node: "nodes (assign_node i n s) = (nodes s)(i \<mapsto> n)"
  by (simp add: assign_node_def)

lemma parse_entries_nodes:
  "distinct (map fst es) \<Longrightarrow>
   nodes (fst (parse_entries es s sm)) i =
     (case map_of (parsed es) i of Some n \<Rightarrow> Some n | None \<Rightarrow> nodes s i)"
proof (induction es arbitrary: s sm)
  case Nil
  show ?case by simp
next
  case (Cons e es)
  obtain j d where e: "e = (j, d)" by (cases e)
  have dist: "distinct (map fst es)" using Cons.prems by simp
  have "j \<notin> fst ` set (parsed es)" using Cons.prems parsed_keys_subset[of es] e by auto
  then have none: "map_of (parsed es) j = None" by (simp add: map_of_eq_None_iff)
  show ?case
  proof (cases "parse_node d")
    case None
    then show ?thesis using Cons.IH[OF dist, of s sm] e by simp
  next
    case (Some n)
    have "nodes (fst (parse_entries es (assign_node j n s) (register_highlight j n sm))) i =
       (case map_of (parsed es) i of Some n' \<Rightarrow> Some n' | None \<Rightarrow> nodes (assign_node j n s) i)"
      by (rule Cons.IH[OF dist])
    then show ?thesis using e Some none by (auto simp: nodes_assign_node split: option.splits)
  qed
qed

lemma is_element_erase: "is_element (map_option erase x) = is_element x"
  by (cases x rule: is_element.cases) auto

lemma erase_set_parent: "erase (set_parent n q) = erase n"
  by (cases n) auto

lemma erase_push_child: "erase (push_child n c) = erase n"
  by (cases n) auto

lemma assign_parent_erase:
  "assign_parent v i s = Inr s' \<Longrightarrow> map_option erase (nodes s' x) = map_option erase (nodes s x)"
  by (cases v) (auto simp: erase_set_parent split: option.splits)

lemma link_child_erase:
  assumes "link_child i v s = Inr s'"
  shows "map_option erase (nodes s' x) = map_option erase (nodes s x)"
proof -
  obtain s1 where a: "assign_parent v i s = Inr s1"
    and b: "s' = (case nodes s1 i of None \<Rightarrow> s1
                  | Some node \<Rightarrow> s1\<lparr>nodes := (nodes s1)(i \<mapsto> push_child node v)\<rparr>)"
    using assms by (auto simp: link_child_def split: sum.splits)
  have "map_option erase (nodes s' x) = map_option erase (nodes s1 x)"
    using b by (auto simp: erase_push_child split: option.splits)
  then show ?thesis using assign_parent_erase[OF a] by simp
qed

lemma wire_children_erase:
  "wire_children i cs s = Inr s' \<Longrightarrow> map_option erase (nodes s' x) = map_option erase (nodes s x)"
proof (induction cs arbitrary: s)
  case Nil
  then show ?case by simp
next
  case (Cons c cs)
  show ?case
  proof (cases "get_property s c")
    case None
    then show ?thesis using Cons by simp
  next
    case (Some v)
    then obtain s1 where l: "link_child i v s = Inr s1" and w: "wire_children i cs s1 = Inr s'"
      using Cons.prems by (auto split: sum.splits)
    show ?thesis using Cons.IH[OF w] link_child_erase[OF l] by simp
  qed
qed

lemma wire_nodes_erase:
  "wire_nodes m ids s = Inr s' \<Longrightarrow> map_option erase (nodes s' x) = map_option erase (nodes s x)"
proof (induction ids arbitrary: s)
  case Nil
  then show ?case by simp
next
  case (Cons i ids)
  show ?case
  proof (cases "is_element (nodes s i)")
    case False
    then show ?thesis using Cons by simp
  next
    case True
    then obtain s1 where c: "wire_children i (childrenIds (map_of m i)) s = Inr s1"
      and w: "wire_nodes m ids s1 = Inr s'"
      using Cons.prems by (auto split: sum.splits)
    show ?thesis using Cons.IH[OF w] wire_children_erase[OF c] by simp
  qed
qed

lemma constructDomTree_Inr:
  assumes "constructDomTree ev = Inr (root, sm, st)"
  shows "\<exists>s. sm = snd (parse_entries (rmap ev) initial_dom_state Map.empty) \<and>
     wire_nodes (rmap ev) (own_keys (fst (parse_entries (rmap ev) initial_dom_state Map.empty)))
       (fst (parse_entries (rmap ev) initial_dom_state Map.empty)) = Inr s \<and>
     st = nodes s \<and> get_property s (rootId ev) = Some (VNode root) \<and> is_element (nodes s root)"
  using assms
  by (auto simp: constructDomTree_def constructDomTree_state_def Let_def
      split: sum.splits prod.splits option.splits js_value.splits if_splits)

lemma highlights_Nil: "highlights [] = []"
  by (simp add: highlights_def List.map_filter_simps)

lemma highlights_Cons:
  "highlights ((i, d) # es) = (case raw_highlight d of None \<Rightarrow> highlights es | Some h \<Rightarrow> h # highlights es)"
  by (simp add: highlights_def List.map_filter_simps split: option.splits)

lemma highlighted_in:
  "(e, RawElementNode tg as cs (Some h)) \<in> set es \<Longrightarrow> h \<in> set (highlights es)"
  by (induction es) (auto simp: highlights_Cons split: option.splits)

lemma length_highlights: "length (highlights es) \<le> length es"
  by (induction es) (auto simp: highlights_Nil highlights_Cons split: option.splits)

lemma selector_dom:
  "dom (snd (parse_entries es s sm)) \<subseteq> dom sm \<union> set (highlights es)"
proof (induction es arbitrary: s sm)
  case Nil
  show ?case by simp
next
  case (Cons e es)
  obtain i d where e: "e = (i, d)" by (cases e)
  show ?case
  proof (cases d)
    case RawNull
    then show ?thesis using Cons[of s sm] e by (auto simp: highlights_Cons)
  next
    case (RawTextNode t v)
    then show ?thesis using Cons[of "assign_node i (DOMTextNode t v None) s" sm] e
      by (auto simp: highlights_Cons)
  next
    case (RawElementNode tg as cs h)
    show ?thesis
    proof (cases h)
      case None
      then show ?thesis
        using Cons[of "assign_node i (DOMElementNode tg as None [] None) s" sm] e RawElementNode
        by (auto simp: highlights_Cons)
    next
      case (Some k)
      have "dom (snd (parse_entries es (assign_node i (DOMElementNode tg as (Some k) [] None) s) (sm(k \<mapsto> i))))
            \<subseteq> dom (sm(k \<mapsto> i)) \<union> set (highlights es)"
        by (rule Cons.IH)
      then have "dom (snd (parse_entries es (assign_node i (DOMElementNode tg as (Some k) [] None) s) (sm(k \<mapsto> i))))
            \<subseteq> insert k (dom sm) \<union> set (highlights es)"
        by simp
      moreover have "snd (parse_entries (e # es) s sm) =
          snd (parse_entries es (assign_node i (DOMElementNode tg as (Some k) [] None) s) (sm(k \<mapsto> i)))"
        using e RawElementNode Some by simp
      moreover have "highlights (e # es) = k # highlights es"
        using e RawElementNode Some by (simp add: highlights_Cons)
      ultimately show ?thesis by auto
    qed
  qed
qed

lemma selector_lookup:
  "distinct (highlights es) \<Longrightarrow>
   (snd (parse_entries es s sm) h = Some e) =
     ((\<exists>tg as cs. (e, RawElementNode tg as cs (Some h)) \<in> set es) \<or>
      (h \<notin> set (highlights es) \<and> sm h = Some e))"
proof (induction es arbitrary: s sm)
  case Nil
  show ?case by (simp add: highlights_Nil)
next
  case (Cons x es)
  obtain i d where x: "x = (i, d)" by (cases x)
  show ?case
  proof (cases d)
    case RawNull
    then show ?thesis using Cons.IH[of s sm] Cons.prems x by (auto simp: highlights_Cons)
  next
    case (RawTextNode t v)
    then show ?thesis using Cons.IH[of "assign_node i (DOMTextNode t v None) s" sm] Cons.prems x
      by (auto simp: highlights_Cons)
  next
    case (RawElementNode tg as cs ho)
    show ?thesis
    proof (cases ho)
      case None
      then show ?thesis
        using Cons.IH[of "assign_node i (DOMElementNode tg as None [] None) s" sm] Cons.prems x RawElementNode
        by (auto simp: highlights_Cons)
    next
      case (Some k)
      have d: "distinct (highlights es)" and k: "k \<notin> set (highlights es)"
        using Cons.prems x RawElementNode Some by (simp_all add: highlights_Cons)
      have no: "\<And>e' tg' as' cs'. (e', RawElementNode tg' as' cs' (Some k)) \<notin> set es"
        using k highlighted_in by blast
      have ih: "(snd (parse_entries es (assign_node i (DOMElementNode tg as (Some k) [] None) s) (sm(k \<mapsto> i))) h = Some e) =
     ((\<exists>tg as cs. (e, RawElementNode tg as cs (Some h)) \<in> set es) \<or>
      (h \<notin> set (highlights es) \<and> (sm(k \<mapsto> i)) h = Some e))"
        by (rule Cons.IH[OF d])
      show ?thesis
      proof (cases "h = k")
        case True
        then show ?thesis using ih x RawElementNode Some k no
          by (auto simp: highlights_Cons)
      next
        case False
        then show ?thesis using ih x RawElementNode Some
          by (auto simp: highlights_Cons)
      qed
    qed
  qed
qed

lemma erase_element:
  "map_option erase x = Some (DOMElementNode tg as h [] None) \<Longrightarrow>
   \<exists>cs p. x = Some (DOMElementNode tg as h cs p)"
  by (cases x rule: is_element.cases) auto

subsection \<open>Snapshots whose ids name no inherited property\<close>

lemma get_property_plain:
  "plain_state s \<Longrightarrow> \<not> inherited_name k \<Longrightarrow>
   get_property s k = (if k \<in> set (own_keys s) then Some (VNode k) else None)"
  by (simp add: get_property_def plain_state_def inherited_name_def)

lemma assign_node_plain:
  "plain_state s \<Longrightarrow> i \<noteq> ''__proto__'' \<Longrightarrow> i \<notin> set (own_keys s) \<Longrightarrow>
   plain_state (assign_node i n s) \<and> own_keys (assign_node i n s) = own_keys s @ [i]"
  by (auto simp: plain_state_def assign_node_def)

lemma parse_entries_plain:
  "plain_state s \<Longrightarrow> distinct (map fst es) \<Longrightarrow> \<forall>e \<in> set es. fst e \<noteq> ''__proto__'' \<Longrightarrow>
   fst ` set es \<inter> set (own_keys s) = {} \<Longrightarrow>
   plain_state (fst (parse_entries es s sm)) \<and>
   own_keys (fst (parse_entries es s sm)) = own_keys s @ map fst (parsed es)"
proof (induction es arbitrary: s sm)
  case Nil
  then show ?case by simp
next
  case (Cons e es)
  obtain j d where e: "e = (j, d)" by (cases e)
  have dist: "distinct (map fst es)" and jn: "j \<notin> fst ` set es"
    and np: "\<forall>e \<in> set es. fst e \<noteq> ''__proto__''" and jp: "j \<noteq> ''__proto__''"
    and jo: "j \<notin> set (own_keys s)" and disj: "fst ` set es \<inter> set (own_keys s) = {}"
    using Cons.prems e by auto
  show ?case
  proof (cases "parse_node d")
    case None
    then show ?thesis using Cons.IH[OF Cons.prems(1) dist np disj, of sm] e by simp
  next
    case (Some n)
    note a = assign_node_plain[OF Cons.prems(1) jp jo, of n]
    have disj': "fst ` set es \<inter> set (own_keys (assign_node j n s)) = {}"
      using a disj jn by auto
    from Cons.IH[OF conjunct1[OF a] dist np disj', of "register_highlight j n sm"]
    show ?thesis using a e Some by simp
  qed
qed

lemma kids_push: "is_element (Some n) \<Longrightarrow> kids (st(i \<mapsto> push_child n v)) i = kids (st(i \<mapsto> n)) i @ [v]"
  by (cases n) (simp_all add: kids_def)

lemma kids_set_parent: "kids (st(c \<mapsto> set_parent n i)) x = kids (st(c \<mapsto> n)) x"
  by (cases n) (simp_all add: kids_def)

lemma parent_push_child: "parent (push_child n c) = parent n"
  by (cases n) auto

lemma parent_set_parent: "parent (set_parent n q) = Some q"
  by (cases n) auto

lemma is_element_set_parent: "is_element (Some (set_parent n q)) = is_element (Some n)"
  by (cases n) auto

lemma link_child_node:
  assumes c: "nodes s c = Some n" and i: "is_element (nodes s i)"
  shows "\<exists>s'. link_child i (VNode c) s = Inr s' \<and>
     own_keys s' = own_keys s \<and> proto s' = proto s \<and> prototype_parent s' = prototype_parent s \<and>
     dom (nodes s') = dom (nodes s) \<and>
     (\<forall>x. kids (nodes s') x = (if x = i then kids (nodes s) i @ [VNode c] else kids (nodes s) x)) \<and>
     (\<forall>x. parent_of (nodes s') x = (if x = c then Some i else parent_of (nodes s) x))"
proof -
  let ?s1 = "s\<lparr>nodes := (nodes s)(c \<mapsto> set_parent n i)\<rparr>"
  have a: "assign_parent (VNode c) i s = Inr ?s1" using c by simp
  obtain m where m: "nodes ?s1 i = Some m" and em: "is_element (Some m)"
    and mk: "kids (nodes ?s1) i = kids (nodes s) i"
  proof (cases "i = c")
    case True
    then show ?thesis using that[of "set_parent n i"] c i
      by (simp add: is_element_set_parent kids_set_parent) (simp add: kids_def)
  next
    case False
    then obtain m where "nodes s i = Some m" using i by (cases "nodes s i") auto
    then show ?thesis using that[of m] False i by (simp add: kids_def)
  qed
  let ?s2 = "?s1\<lparr>nodes := (nodes ?s1)(i \<mapsto> push_child m (VNode c))\<rparr>"
  have l: "link_child i (VNode c) s = Inr ?s2" using a m by (simp add: link_child_def)
  have k: "kids (nodes ?s2) x = (if x = i then kids (nodes s) i @ [VNode c] else kids (nodes s) x)" for x
  proof (cases "x = i")
    case True
    have "kids (nodes ?s2) i = kids ((nodes ?s1)(i \<mapsto> m)) i @ [VNode c]"
      using kids_push[OF em, of "nodes ?s1" i "VNode c"] by simp
    moreover have "(nodes ?s1)(i \<mapsto> m) = nodes ?s1" using m by (simp add: fun_upd_idem)
    ultimately show ?thesis using True mk by simp
  next
    case False
    then have e1: "kids (nodes ?s2) x = kids ((nodes s)(c \<mapsto> set_parent n i)) x"
      by (simp add: kids_def)
    have e2: "kids ((nodes s)(c \<mapsto> set_parent n i)) x = kids ((nodes s)(c \<mapsto> n)) x"
      by (rule kids_set_parent)
    have e3: "(nodes s)(c \<mapsto> n) = nodes s" using c by (simp add: fun_upd_idem)
    have "kids (nodes ?s2) x = kids (nodes s) x" using e1 e2 by (simp only: e3)
    then show ?thesis using False by simp
  qed
  have p: "parent_of (nodes ?s2) x = (if x = c then Some i else parent_of (nodes s) x)" for x
  proof (cases "x = i")
    case True
    have "parent_of (nodes ?s2) i = parent m" by (simp add: parent_of_def parent_push_child)
    moreover have "parent m = (if i = c then Some i else parent_of (nodes s) i)"
      using m c by (auto simp: parent_of_def parent_set_parent split: if_splits)
    ultimately show ?thesis using True by simp
  next
    case False
    then show ?thesis by (simp add: parent_of_def parent_set_parent)
  qed
  have d: "dom (nodes ?s2) = dom (nodes s)" using c m by (auto split: if_splits)
  show ?thesis using l k p d by (intro exI[of _ ?s2]) simp
qed

lemma link_child_is_element:
  "link_child i v s = Inr s' \<Longrightarrow> is_element (nodes s' x) = is_element (nodes s x)"
  using link_child_erase[of i v s s' x] is_element_erase[of "nodes s' x"] is_element_erase[of "nodes s x"]
  by simp

lemma wire_children_is_element:
  "wire_children i cs s = Inr s' \<Longrightarrow> is_element (nodes s' x) = is_element (nodes s x)"
  using wire_children_erase[of i cs s s' x] is_element_erase[of "nodes s' x"] is_element_erase[of "nodes s x"]
  by simp

lemma wire_nodes_is_element:
  "wire_nodes m ids s = Inr s' \<Longrightarrow> is_element (nodes s' x) = is_element (nodes s x)"
  using wire_nodes_erase[of m ids s s' x] is_element_erase[of "nodes s' x"] is_element_erase[of "nodes s x"]
  by simp

lemma wire_children_plain:
  assumes "plain_state s" and "\<forall>c \<in> set cs. \<not> inherited_name c" and "is_element (nodes s i)"
  shows "\<exists>s'. wire_children i cs s = Inr s' \<and> plain_state s' \<and> own_keys s' = own_keys s \<and>
     (\<forall>x. kids (nodes s') x =
        (if x = i then kids (nodes s) i @ map VNode (filter (\<lambda>c. c \<in> set (own_keys s)) cs)
         else kids (nodes s) x)) \<and>
     (\<forall>x. parent_of (nodes s') x =
        (if x \<in> set cs \<and> x \<in> set (own_keys s) then Some i else parent_of (nodes s) x))"
  using assms
proof (induction cs arbitrary: s)
  case Nil
  then show ?case by simp
next
  case (Cons c cs)
  have pc: "\<not> inherited_name c" and rest: "\<forall>c \<in> set cs. \<not> inherited_name c"
    using Cons.prems(2) by simp_all
  note g = get_property_plain[OF Cons.prems(1) pc]
  show ?case
  proof (cases "c \<in> set (own_keys s)")
    case False
    then have w: "wire_children i (c # cs) s = wire_children i cs s" using g by simp
    obtain s' where s': "wire_children i cs s = Inr s'" "plain_state s'" "own_keys s' = own_keys s"
      "\<forall>x. kids (nodes s') x =
        (if x = i then kids (nodes s) i @ map VNode (filter (\<lambda>c. c \<in> set (own_keys s)) cs)
         else kids (nodes s) x)"
      "\<forall>x. parent_of (nodes s') x =
        (if x \<in> set cs \<and> x \<in> set (own_keys s) then Some i else parent_of (nodes s) x)"
      using Cons.IH[OF Cons.prems(1) rest Cons.prems(3)] by blast
    show ?thesis
      using w s' False by (intro exI[of _ s']) auto
  next
    case True
    then obtain n where n: "nodes s c = Some n"
      using Cons.prems(1) by (auto simp: plain_state_def)
    obtain s1 where l: "link_child i (VNode c) s = Inr s1"
      and o: "own_keys s1 = own_keys s" "proto s1 = proto s" "prototype_parent s1 = prototype_parent s"
        "dom (nodes s1) = dom (nodes s)"
      and k1: "\<forall>x. kids (nodes s1) x = (if x = i then kids (nodes s) i @ [VNode c] else kids (nodes s) x)"
      and p1: "\<forall>x. parent_of (nodes s1) x = (if x = c then Some i else parent_of (nodes s) x)"
      using link_child_node[OF n Cons.prems(3)] by blast
    have ps1: "plain_state s1" using Cons.prems(1) o by (simp add: plain_state_def)
    have e1: "is_element (nodes s1 i)" using link_child_is_element[OF l] Cons.prems(3) by simp
    obtain s' where s': "wire_children i cs s1 = Inr s'" "plain_state s'" "own_keys s' = own_keys s1"
      "\<forall>x. kids (nodes s') x =
        (if x = i then kids (nodes s1) i @ map VNode (filter (\<lambda>c. c \<in> set (own_keys s1)) cs)
         else kids (nodes s1) x)"
      "\<forall>x. parent_of (nodes s') x =
        (if x \<in> set cs \<and> x \<in> set (own_keys s1) then Some i else parent_of (nodes s1) x)"
      using Cons.IH[OF ps1 rest e1] by blast
    have w: "wire_children i (c # cs) s = Inr s'" using g True l s'(1) by simp
    show ?thesis
      using w s'(2-5) o(1) k1 p1 True by (intro exI[of _ s']) auto
  qed
qed

lemma wire_nodes_plain:
  assumes "plain_state s" and "distinct ids"
    and "\<forall>i. \<forall>c \<in> set (childrenIds (map_of m i)). \<not> inherited_name c"
  shows "\<exists>s'. wire_nodes m ids s = Inr s' \<and> plain_state s' \<and> own_keys s' = own_keys s \<and>
     (\<forall>x. kids (nodes s') x =
        (if x \<in> set ids \<and> is_element (nodes s x)
         then kids (nodes s) x @
              map VNode (filter (\<lambda>c. c \<in> set (own_keys s)) (childrenIds (map_of m x)))
         else kids (nodes s) x)) \<and>
     (\<forall>x. (parent_of (nodes s') x = None) =
        (parent_of (nodes s) x = None \<and>
         (\<forall>p \<in> set ids. is_element (nodes s p) \<longrightarrow>
            \<not> (x \<in> set (childrenIds (map_of m p)) \<and> x \<in> set (own_keys s)))))"
  using assms(1,2)
proof (induction ids arbitrary: s)
  case Nil
  then show ?case by simp
next
  case (Cons i ids)
  have d: "distinct ids" and ni: "i \<notin> set ids" using Cons.prems(2) by simp_all
  show ?case
  proof (cases "is_element (nodes s i)")
    case False
    obtain s' where s': "wire_nodes m ids s = Inr s'" "plain_state s'" "own_keys s' = own_keys s"
      "\<forall>x. kids (nodes s') x =
        (if x \<in> set ids \<and> is_element (nodes s x)
         then kids (nodes s) x @
              map VNode (filter (\<lambda>c. c \<in> set (own_keys s)) (childrenIds (map_of m x)))
         else kids (nodes s) x)"
      "\<forall>x. (parent_of (nodes s') x = None) =
        (parent_of (nodes s) x = None \<and>
         (\<forall>p \<in> set ids. is_element (nodes s p) \<longrightarrow>
            \<not> (x \<in> set (childrenIds (map_of m p)) \<and> x \<in> set (own_keys s))))"
      using Cons.IH[OF Cons.prems(1) d] by blast
    show ?thesis
      using s' False by (intro exI[of _ s']) auto
  next
    case True
    have pc: "\<forall>c \<in> set (childrenIds (map_of m i)). \<not> inherited_name c" using assms(3) by simp
    obtain s1 where c: "wire_children i (childrenIds (map_of m i)) s = Inr s1"
      and ps1: "plain_state s1" and o1: "own_keys s1 = own_keys s"
      and k1: "\<forall>x. kids (nodes s1) x =
        (if x = i then kids (nodes s) i @
             map VNode (filter (\<lambda>c. c \<in> set (own_keys s)) (childrenIds (map_of m i)))
         else kids (nodes s) x)"
      and p1: "\<forall>x. parent_of (nodes s1) x =
        (if x \<in> set (childrenIds (map_of m i)) \<and> x \<in> set (own_keys s) then Some i
         else parent_of (nodes s) x)"
      using wire_children_plain[OF Cons.prems(1) pc True] by blast
    have el: "is_element (nodes s1 x) = is_element (nodes s x)" for x
      using wire_children_is_element[OF c] .
    obtain s' where s': "wire_nodes m ids s1 = Inr s'" "plain_state s'" "own_keys s' = own_keys s1"
      "\<forall>x. kids (nodes s') x =
        (if x \<in> set ids \<and> is_element (nodes s1 x)
         then kids (nodes s1) x @
              map VNode (filter (\<lambda>c. c \<in> set (own_keys s1)) (childrenIds (map_of m x)))
         else kids (nodes s1) x)"
      "\<forall>x. (parent_of (nodes s') x = None) =
        (parent_of (nodes s1) x = None \<and>
         (\<forall>p \<in> set ids. is_element (nodes s1 p) \<longrightarrow>
            \<not> (x \<in> set (childrenIds (map_of m p)) \<and> x \<in> set (own_keys s1))))"
      using Cons.IH[OF ps1 d] by blast
    have w: "wire_nodes m (i # ids) s = Inr s'" using True c s'(1) by simp
    have kk: "kids (nodes s') x =
        (if x \<in> set (i # ids) \<and> is_element (nodes s x)
         then kids (nodes s) x @
              map VNode (filter (\<lambda>c. c \<in> set (own_keys s)) (childrenIds (map_of m x)))
         else kids (nodes s) x)" for x
      using s'(4) k1 o1 el ni True by auto
    have pp: "(parent_of (nodes s') x = None) =
        (parent_of (nodes s) x = None \<and>
         (\<forall>p \<in> set (i # ids). is_element (nodes s p) \<longrightarrow>
            \<not> (x \<in> set (childrenIds (map_of m p)) \<and> x \<in> set (own_keys s))))" for x
      using s'(5) p1 o1 el True by auto
    show ?thesis
      using w s'(2,3) o1 kk pp by (intro exI[of _ s']) simp
  qed
qed

lemma plain_ids_children:
  assumes "plain_ids ev"
  shows "\<forall>i. \<forall>c \<in> set (childrenIds (map_of (rmap ev) i)). \<not> inherited_name c"
proof (intro allI ballI)
  fix i c assume c: "c \<in> set (childrenIds (map_of (rmap ev) i))"
  then obtain d where d: "map_of (rmap ev) i = Some d" by (cases "map_of (rmap ev) i") auto
  then have "(i, d) \<in> set (rmap ev)" by (rule map_of_SomeD)
  then have "list_all (\<lambda>c. \<not> inherited_name c) (childrenIds (Some d))"
    using assms by (auto simp: plain_ids_def list_all_iff)
  then show "\<not> inherited_name c" using c d by (simp add: list_all_iff)
qed

lemma plain_ids_keys: "plain_ids ev \<Longrightarrow> \<forall>e \<in> set (rmap ev). fst e \<noteq> ''__proto__''"
  by (auto simp: plain_ids_def list_all_iff inherited_name_def)

lemma plain_state_initial: "plain_state initial_dom_state"
  by (simp add: plain_state_def initial_dom_state_def)

lemma kids_parsed: "kids (map_of (parsed es)) x = []"
proof (cases "map_of (parsed es) x")
  case None
  then show ?thesis by (simp add: kids_def)
next
  case (Some n)
  then have "erase n = n" using parsed_erase by blast
  then show ?thesis using Some by (cases n) (auto simp: kids_def)
qed

lemma parent_parsed: "parent_of (map_of (parsed es)) x = None"
  using parsed_erase[of es x] by (auto simp: parent_of_def split: option.splits)

lemma not_element_no_children:
  "\<not> is_element (Option.bind (map_of es x) parse_node) \<Longrightarrow> childrenIds (map_of es x) = []"
  by (cases "map_of es x" rule: childrenIds.cases) auto

lemma children_imp_element:
  "c \<in> set (childrenIds (map_of es x)) \<Longrightarrow> is_element (Option.bind (map_of es x) parse_node)"
  using not_element_no_children[of es x]
  by (cases "is_element (Option.bind (map_of es x) parse_node)") simp_all

lemma is_element_Some: "is_element x \<Longrightarrow> x \<noteq> None"
  by (cases x) simp_all

lemma parsed_no_null: "RawNull \<notin> snd ` set es \<Longrightarrow> map fst (parsed es) = map fst es"
proof (induction es)
  case Nil
  show ?case by simp
next
  case (Cons e es)
  obtain i d where e: "e = (i, d)" by (cases e)
  have "d \<noteq> RawNull" using Cons.prems e by auto
  then obtain n where "parse_node d = Some n" by (cases d) auto
  then show ?case using Cons e by simp
qed

lemma filter_eq_single: "distinct xs \<Longrightarrow> r \<in> set xs \<Longrightarrow> filter (\<lambda>i. i = r) xs = [r]"
  by (induction xs) (auto simp: filter_empty_conv)

lemma map_filter_node_of: "List.map_filter node_of (map VNode cs) = cs"
  by (induction cs) (simp_all add: List.map_filter_simps)

text \<open>
  On a snapshot whose ids name no inherited property, the node map behaves as a map from
  ids to nodes.
\<close>

lemma constructDomTree_plain:
  assumes dk: "distinct (map fst (rmap ev))" and pl: "plain_ids ev"
  shows "\<exists>s. plain_state s \<and>
     dom (nodes s) = fst ` set (parsed (rmap ev)) \<and>
     (\<forall>x. is_element (nodes s x) = is_element (Option.bind (map_of (rmap ev) x) parse_node)) \<and>
     (\<forall>x. kids (nodes s) x =
        map VNode (filter (\<lambda>c. c \<in> fst ` set (parsed (rmap ev))) (childrenIds (map_of (rmap ev) x)))) \<and>
     (\<forall>x. (parent_of (nodes s) x = None) =
        (\<forall>p. x \<in> set (childrenIds (map_of (rmap ev) p)) \<longrightarrow> x \<notin> fst ` set (parsed (rmap ev)))) \<and>
     constructDomTree ev =
       (if resolves_to_element ev
        then Inr (rootId ev, snd (parse_entries (rmap ev) initial_dom_state Map.empty), nodes s)
        else Inl MalformedSnapshot)"
proof -
  let ?es = "rmap ev"
  let ?init = "fst (parse_entries ?es initial_dom_state Map.empty)"
  let ?sm = "snd (parse_entries ?es initial_dom_state Map.empty)"
  let ?P = "fst ` set (parsed ?es)"
  have p0: "plain_state ?init" and k0: "own_keys ?init = map fst (parsed ?es)"
    using parse_entries_plain[OF plain_state_initial dk plain_ids_keys[OF pl], of Map.empty]
    by (simp_all add: initial_dom_state_def)
  have n0: "nodes ?init x = map_of (parsed ?es) x" for x
    using parse_entries_nodes[OF dk, of initial_dom_state Map.empty x]
    by (simp add: initial_dom_state_def split: option.splits)
  then have n0f: "nodes ?init = map_of (parsed ?es)" by (intro ext)
  have dp: "distinct (own_keys ?init)" using distinct_parsed[OF dk] k0 by simp
  obtain s where w: "wire_nodes ?es (own_keys ?init) ?init = Inr s"
    and ps: "plain_state s" and ks: "own_keys s = own_keys ?init"
    and kd: "\<forall>x. kids (nodes s) x =
        (if x \<in> set (own_keys ?init) \<and> is_element (nodes ?init x)
         then kids (nodes ?init) x @
              map VNode (filter (\<lambda>c. c \<in> set (own_keys ?init)) (childrenIds (map_of ?es x)))
         else kids (nodes ?init) x)"
    and pa: "\<forall>x. (parent_of (nodes s) x = None) =
        (parent_of (nodes ?init) x = None \<and>
         (\<forall>p \<in> set (own_keys ?init). is_element (nodes ?init p) \<longrightarrow>
            \<not> (x \<in> set (childrenIds (map_of ?es p)) \<and> x \<in> set (own_keys ?init))))"
    using wire_nodes_plain[OF p0 dp plain_ids_children[OF pl]] by blast
  have el: "is_element (nodes s x) = is_element (Option.bind (map_of ?es x) parse_node)" for x
    using wire_nodes_is_element[OF w, of x] n0 map_of_parsed[OF dk] by simp
  have own: "set (own_keys s) = ?P" using ks k0 by simp
  have d: "dom (nodes s) = ?P" using ps own by (simp add: plain_state_def)
  have elP: "x \<in> ?P" if "is_element (Option.bind (map_of ?es x) parse_node)" for x
  proof -
    have "map_of (parsed ?es) x \<noteq> None"
      using that map_of_parsed[OF dk, of x] is_element_Some by simp
    then show ?thesis by (simp add: map_of_eq_None_iff)
  qed
  have kids_eq: "kids (nodes s) x =
      map VNode (filter (\<lambda>c. c \<in> ?P) (childrenIds (map_of ?es x)))" for x
  proof (cases "is_element (Option.bind (map_of ?es x) parse_node)")
    case True
    then show ?thesis
      using kd elP[OF True] k0 n0f map_of_parsed[OF dk, of x] by (simp add: kids_parsed)
  next
    case False
    then show ?thesis
      using kd n0f map_of_parsed[OF dk, of x] not_element_no_children[OF False]
      by (simp add: kids_parsed)
  qed
  have par_eq: "(parent_of (nodes s) x = None) =
      (\<forall>p. x \<in> set (childrenIds (map_of ?es p)) \<longrightarrow> x \<notin> ?P)" for x
  proof -
    have "(parent_of (nodes s) x = None) =
      (\<forall>p \<in> ?P. is_element (Option.bind (map_of ?es p) parse_node) \<longrightarrow>
            \<not> (x \<in> set (childrenIds (map_of ?es p)) \<and> x \<in> ?P))"
      using pa k0 n0f map_of_parsed[OF dk] by (simp add: parent_parsed)
    also have "\<dots> = (\<forall>p. x \<in> set (childrenIds (map_of ?es p)) \<longrightarrow> x \<notin> ?P)"
      using elP children_imp_element[of x ?es] by blast
    finally show ?thesis .
  qed
  have nr: "\<not> inherited_name (rootId ev)" using pl by (simp add: plain_ids_def)
  have gp: "get_property s (rootId ev) = (if rootId ev \<in> ?P then Some (VNode (rootId ev)) else None)"
    using get_property_plain[OF ps nr] own by simp
  have c: "constructDomTree ev =
       (if resolves_to_element ev then Inr (rootId ev, ?sm, nodes s) else Inl MalformedSnapshot)"
  proof (cases "resolves_to_element ev")
    case True
    then have "rootId ev \<in> ?P" using elP by (simp add: resolves_to_element_def)
    then show ?thesis
      using True w gp el[of "rootId ev"]
      by (simp add: constructDomTree_def constructDomTree_state_def Let_def
          resolves_to_element_def case_prod_beta)
  next
    case False
    then show ?thesis
      using w gp el[of "rootId ev"]
      by (simp add: constructDomTree_def constructDomTree_state_def Let_def
          resolves_to_element_def case_prod_beta)
  qed
  show ?thesis
    using ps d el kids_eq par_eq c by (intro exI[of _ s]) simp
qed

section \<open>Walking a tree\<close>

lemma length_le_concat: "c \<in> set xs \<Longrightarrow> length (g c) \<le> length (concat (map g xs))"
  by (induction xs) auto

lemma walk_saturated:
  "length (walk ch (Suc f) r) \<le> f \<Longrightarrow> walk ch (Suc (Suc f)) r = walk ch (Suc f) r"
proof (induction f arbitrary: r)
  case 0
  then show ?case by simp
next
  case (Suc f)
  have m: "map (walk ch (Suc (Suc f))) (ch r) = map (walk ch (Suc f)) (ch r)"
  proof (rule map_cong[OF refl])
    fix c assume c: "c \<in> set (ch r)"
    have "length (walk ch (Suc f) c) \<le> length (concat (map (walk ch (Suc f)) (ch r)))"
      using c by (rule length_le_concat)
    also have "\<dots> \<le> f" using Suc.prems by simp
    finally show "walk ch (Suc (Suc f)) c = walk ch (Suc f) c" by (rule Suc.IH)
  qed
  have "walk ch (Suc (Suc (Suc f))) r = r # concat (map (walk ch (Suc (Suc f))) (ch r))"
    by (rule walk.simps(2))
  also have "\<dots> = r # concat (map (walk ch (Suc f)) (ch r))"
    by (simp only: m)
  also have "\<dots> = walk ch (Suc (Suc f)) r"
    by (rule walk.simps(2)[symmetric])
  finally show ?case .
qed

lemma walk_saturated_add:
  "length (walk ch (Suc f) r) \<le> f \<Longrightarrow> walk ch (Suc f + k) r = walk ch (Suc f) r"
proof (induction k)
  case 0
  show ?case by simp
next
  case (Suc k)
  have "length (walk ch (Suc (f + k)) r) \<le> f + k" using Suc by simp
  then have "walk ch (Suc (Suc (f + k))) r = walk ch (Suc (f + k)) r" by (rule walk_saturated)
  then show ?case using Suc by simp
qed

lemma walk_head: "walk ch (Suc f) r = r # tl (walk ch (Suc f) r)"
  by simp

lemma walk_root_in: "r \<in> set (walk ch (Suc f) r)"
  by simp

lemma walk_distinct_tl: "distinct (walk ch (Suc f) r) \<Longrightarrow> r \<notin> set (tl (walk ch (Suc f) r))"
  by simp

lemma walk_tl_subset: "set (tl (walk ch (Suc f) r)) \<subseteq> set (walk ch (Suc f) r)"
  by auto

lemma walk_child_in_tl:
  "x \<in> set (walk ch (Suc f) r) \<Longrightarrow> c \<in> set (ch x) \<Longrightarrow> c \<in> set (tl (walk ch (Suc (Suc f)) r))"
proof (induction f arbitrary: r)
  case 0
  then show ?case by auto
next
  case (Suc f)
  show ?case
  proof (cases "x = r")
    case True
    then show ?thesis using Suc.prems(2) by auto
  next
    case False
    then obtain c' where c': "c' \<in> set (ch r)" "x \<in> set (walk ch (Suc f) c')"
      using Suc.prems(1) by auto
    have "c \<in> set (tl (walk ch (Suc (Suc f)) c'))" using c'(2) Suc.prems(2) by (rule Suc.IH)
    then have "c \<in> set (walk ch (Suc (Suc f)) c')" by simp
    then show ?thesis using c'(1) by auto
  qed
qed

lemma walk_origin:
  "x \<in> set (walk ch (Suc f) r) \<Longrightarrow> x = r \<or> (\<exists>p \<in> set (walk ch (Suc f) r). x \<in> set (ch p))"
proof (induction f arbitrary: r)
  case 0
  then show ?case by simp
next
  case (Suc f)
  show ?case
  proof (cases "x = r")
    case True
    then show ?thesis by simp
  next
    case False
    then obtain c' where c': "c' \<in> set (ch r)" "x \<in> set (walk ch (Suc f) c')"
      using Suc.prems(1) by auto
    from Suc.IH[OF c'(2)] show ?thesis
    proof
      assume "x = c'"
      then show ?thesis using c'(1) by auto
    next
      assume "\<exists>p \<in> set (walk ch (Suc f) c'). x \<in> set (ch p)"
      then obtain p where "p \<in> set (walk ch (Suc f) c')" "x \<in> set (ch p)" by blast
      then show ?thesis using c'(1) by auto
    qed
  qed
qed

lemma snapshot_example_valid: "valid_flat_map snapshot_example"
  by (simp add: valid_flat_map_def snapshot_example_def raw_children_def)

lemma snapshot_example_resolves: "resolves_to_element snapshot_example"
  by (simp add: resolves_to_element_def snapshot_example_def)

lemma snapshot_example_unique: "unique_highlights snapshot_example"
  by (simp add: unique_highlights_def snapshot_example_def List.map_filter_simps)

lemma snapshot_example_plain: "plain_ids snapshot_example"
  by (simp add: plain_ids_def snapshot_example_def inherited_name_def object_prototype_names_def)

lemma constructDomTree_proto_root:
  "constructDomTree proto_root_snapshot =
     Inr (''__proto__'', Map.empty,
          [''1'' \<mapsto> DOMTextNode ''hi'' True None,
           ''__proto__'' \<mapsto> DOMElementNode ''div'' [] None [] None])"
  by (simp add: constructDomTree_def constructDomTree_state_def proto_root_snapshot_def
      initial_dom_state_def assign_node_def get_property_def)

lemma constructDomTree_absent_root:
  "constructDomTree absent_root_snapshot =
     Inr (''p'', Map.empty,
          [''__proto__'' \<mapsto> DOMElementNode ''span'' [] None [] (Some ''p''),
           ''p'' \<mapsto> DOMElementNode ''div'' [] None [VNode ''__proto__''] None])"
  by (simp add: constructDomTree_def constructDomTree_state_def absent_root_snapshot_def
      initial_dom_state_def assign_node_def get_property_def link_child_def
      object_prototype_names_def)

section \<open>Properties of tree construction\<close>

text \<open>
  C8: tree construction need not fail with \<open>MalformedSnapshot\<close> when the declared root id
  is absent from the flat node map. In the snapshot \<open>absent_root_snapshot\<close> the keys are
  distinct and the declared root id \<open>parent\<close> is no key of the map, yet construction
  returns a tree, rooted at the element "p": the entry \<open>__proto__\<close> has become the
  prototype of the node map, "p" has adopted it as its child and set its \<open>parent\<close>, and
  the lookup of the root id \<open>parent\<close> in the node map reads that property.
\<close>

theorem absent_root_id_resolves:
  "distinct (map fst (rmap absent_root_snapshot)) \<and>
   map_of (rmap absent_root_snapshot) (rootId absent_root_snapshot) = None \<and>
   (\<exists>sm st. constructDomTree absent_root_snapshot = Inr (''p'', sm, st) \<and>
      kids st ''p'' = [VNode ''__proto__''])"
  unfolding constructDomTree_absent_root
  by (simp add: absent_root_snapshot_def kids_def)

text \<open>
  On snapshots whose ids name no inherited property, construction fails exactly when the
  declared root id is no key of the map or does not resolve to an Element node; the only
  failure is \<open>MalformedSnapshot\<close>, and a failure returns neither tree nor selector map.
\<close>

lemma malformed_snapshot_plain:
  assumes "distinct (map fst (rmap ev))" and "plain_ids ev"
  shows "(constructDomTree ev = Inl MalformedSnapshot) =
           (rootId ev \<notin> fst ` set (rmap ev) \<or> \<not> resolves_to_element ev) \<and>
         (constructDomTree ev = Inl MalformedSnapshot) = (\<nexists>r. constructDomTree ev = Inr r) \<and>
         (\<forall>e. constructDomTree ev = Inl e \<longrightarrow> e = MalformedSnapshot)"
proof -
  have "rootId ev \<notin> fst ` set (rmap ev) \<Longrightarrow> \<not> resolves_to_element ev"
    by (simp add: resolves_to_element_def map_of_eq_None_iff[THEN iffD2])
  moreover obtain s :: dom_state where "constructDomTree ev =
       (if resolves_to_element ev
        then Inr (rootId ev, snd (parse_entries (rmap ev) initial_dom_state Map.empty), nodes s)
        else Inl MalformedSnapshot)"
    using constructDomTree_plain[OF assms] by blast
  ultimately show ?thesis by auto
qed

text \<open>
  C3: for a flat node map with distinct keys whose highlight indices identify elements
  (no index occurs twice), the selector map of a successful construction has at most as
  many entries as the map has nodes, and it maps \<open>h\<close> to \<open>e\<close> exactly when the entry
  \<open>e\<close> is an element with highlight index \<open>h\<close>; the node stored for \<open>e\<close> is then
  that element.
\<close>

theorem selector_map_exact:
  assumes "distinct (map fst (rmap ev))" and "unique_highlights ev"
    and "constructDomTree ev = Inr (root, sm, st)"
  shows "card (dom sm) \<le> length (rmap ev) \<and>
         (sm h = Some e) = (\<exists>tg as cs. map_of (rmap ev) e = Some (RawElementNode tg as cs (Some h))) \<and>
         (sm h = Some e \<longrightarrow> (\<exists>tg as cs p. st e = Some (DOMElementNode tg as (Some h) cs p)))"
proof -
  let ?init = "fst (parse_entries (rmap ev) initial_dom_state Map.empty)"
  obtain s where sm: "sm = snd (parse_entries (rmap ev) initial_dom_state Map.empty)"
    and w: "wire_nodes (rmap ev) (own_keys ?init) ?init = Inr s" and st: "st = nodes s"
    using constructDomTree_Inr[OF assms(3)] by blast
  have dh: "distinct (highlights (rmap ev))" using assms(2) by (simp add: unique_highlights_def highlights_def)
  have "dom sm \<subseteq> set (highlights (rmap ev))"
    using selector_dom[of "rmap ev" initial_dom_state Map.empty] sm by simp
  then have "card (dom sm) \<le> card (set (highlights (rmap ev)))"
    by (intro card_mono) simp_all
  also have "\<dots> \<le> length (highlights (rmap ev))" by (rule card_length)
  also have "\<dots> \<le> length (rmap ev)" by (rule length_highlights)
  finally have a: "card (dom sm) \<le> length (rmap ev)" .
  have b: "(sm h = Some e) = (\<exists>tg as cs. map_of (rmap ev) e = Some (RawElementNode tg as cs (Some h)))"
    using selector_lookup[OF dh, of initial_dom_state Map.empty h e] sm assms(1) by simp
  have c: "\<exists>tg as cs p. st e = Some (DOMElementNode tg as (Some h) cs p)" if hyp: "sm h = Some e"
  proof -
    obtain tg as cs where m: "map_of (rmap ev) e = Some (RawElementNode tg as cs (Some h))"
      using hyp b by auto
    have "map_option erase (st e) = Some (DOMElementNode tg as (Some h) [] None)"
    proof -
      have "map_of (parsed (rmap ev)) e = Some (DOMElementNode tg as (Some h) [] None)"
        using m assms(1) by (simp add: map_of_parsed)
      then have "nodes ?init e = Some (DOMElementNode tg as (Some h) [] None)"
        using parse_entries_nodes[OF assms(1), of initial_dom_state Map.empty e] by simp
      then show ?thesis using wire_nodes_erase[OF w, of e] by (simp add: st)
    qed
    then show ?thesis using erase_element by blast
  qed
  show ?thesis using a b c by blast
qed

theorem selector_map_exact_witness:
  "distinct (map fst (rmap snapshot_example)) \<and> unique_highlights snapshot_example \<and>
   (\<exists>sm st. constructDomTree snapshot_example = Inr (''0'', sm, st) \<and>
      card (dom sm) \<le> 3 \<and> sm 5 = Some ''2'' \<and> sm 4 \<noteq> Some ''2'')"
proof -
  have d: "distinct (map fst (rmap snapshot_example))" by (simp add: snapshot_example_def)
  have "\<exists>s :: dom_state. constructDomTree snapshot_example =
      Inr (rootId snapshot_example,
           snd (parse_entries (rmap snapshot_example) initial_dom_state Map.empty), nodes s)"
    using constructDomTree_plain[OF d snapshot_example_plain] snapshot_example_resolves by auto
  then obtain sm st where "constructDomTree snapshot_example = Inr (rootId snapshot_example, sm, st)"
    by blast
  then have c: "constructDomTree snapshot_example = Inr (''0'', sm, st)"
    by (simp add: snapshot_example_def)
  have "card (dom sm) \<le> 3" "sm 5 = Some ''2''" "sm 4 \<noteq> Some ''2''"
    using selector_map_exact[OF d snapshot_example_unique c, of 5 "''2''"]
      selector_map_exact[OF d snapshot_example_unique c, of 4 "''2''"]
    by (simp_all add: snapshot_example_def)
  then show ?thesis using d snapshot_example_unique c by blast
qed

text \<open>
  C2: the tree reconstructed from a valid flat node map of size N whose root id resolves
  to an Element does not always have N nodes, one root and the input child order. The
  snapshot \<open>proto_root_snapshot\<close> is a valid flat map of size 2 whose root \<open>__proto__\<close>
  resolves to an Element with the child-id list ["1"]; construction succeeds with that
  root, but the tree below it has one node, the root has no children, and both entries
  are left without a parent. The second loop runs over the own properties of the node map,
  and the entry \<open>__proto__\<close> is not one of them.
\<close>

theorem proto_root_loses_children:
  "valid_flat_map proto_root_snapshot \<and> resolves_to_element proto_root_snapshot \<and>
   length (rmap proto_root_snapshot) = 2 \<and>
   raw_children proto_root_snapshot ''__proto__'' = [''1''] \<and>
   (\<exists>sm st. constructDomTree proto_root_snapshot = Inr (''__proto__'', sm, st) \<and>
      tree_nodes st 3 ''__proto__'' = [''__proto__''] \<and>
      kids st ''__proto__'' = [] \<and>
      filter (\<lambda>i. parent_of st i = None) (map fst (rmap proto_root_snapshot)) =
        [''1'', ''__proto__''])"
proof -
  have "valid_flat_map proto_root_snapshot"
    by (simp add: valid_flat_map_def proto_root_snapshot_def raw_children_def insert_commute)
  moreover have "resolves_to_element proto_root_snapshot"
    by (simp add: resolves_to_element_def proto_root_snapshot_def)
  moreover have "length (rmap proto_root_snapshot) = 2"
    by (simp add: proto_root_snapshot_def)
  moreover have "raw_children proto_root_snapshot ''__proto__'' = [''1'']"
    by (simp add: proto_root_snapshot_def raw_children_def)
  moreover have "\<exists>sm st. constructDomTree proto_root_snapshot = Inr (''__proto__'', sm, st) \<and>
      tree_nodes st 3 ''__proto__'' = [''__proto__''] \<and>
      kids st ''__proto__'' = [] \<and>
      filter (\<lambda>i. parent_of st i = None) (map fst (rmap proto_root_snapshot)) =
        [''1'', ''__proto__'']"
    unfolding constructDomTree_proto_root
    by (simp add: tree_nodes_def child_nodes_def kids_def parent_of_def proto_root_snapshot_def
        List.map_filter_simps numeral_3_eq_3)
  ultimately show ?thesis by (intro conjI)
qed

text \<open>
  On snapshots whose ids name no inherited property the reconstruction is as described:
  for a valid flat node map of size N whose root id resolves to an Element, construction
  succeeds with the declared root; the store holds exactly the N entries; the tree below
  the root has exactly N nodes, each entry once; the root is the only node without a
  parent; and the children of every node are its input child-id list, in order.
\<close>

lemma tree_reconstruction_plain:
  assumes v: "valid_flat_map ev" and r: "resolves_to_element ev" and pl: "plain_ids ev"
  shows "\<exists>sm st. constructDomTree ev = Inr (rootId ev, sm, st) \<and>
     dom st = set (map fst (rmap ev)) \<and>
     (\<forall>fuel. length (rmap ev) < fuel \<longrightarrow>
        length (tree_nodes st fuel (rootId ev)) = length (rmap ev) \<and>
        distinct (tree_nodes st fuel (rootId ev)) \<and>
        set (tree_nodes st fuel (rootId ev)) = set (map fst (rmap ev))) \<and>
     filter (\<lambda>i. parent_of st i = None) (map fst (rmap ev)) = [rootId ev] \<and>
     (\<forall>i. kids st i = map VNode (raw_children ev i))"
proof -
  let ?es = "rmap ev" and ?root = "rootId ev" and ?ch = "raw_children ev"
  let ?N = "length ?es"
  let ?W = "walk ?ch (Suc ?N) ?root"
  let ?sm = "snd (parse_entries ?es initial_dom_state Map.empty)"
  note walk.simps [simp del]
  have dk: "distinct (map fst ?es)" and nn: "RawNull \<notin> snd ` set ?es"
    and dW: "distinct ?W" and sW: "set ?W = set (map fst ?es)"
    using v by (simp_all add: valid_flat_map_def)
  have keys: "map fst (parsed ?es) = map fst ?es" using nn by (rule parsed_no_null)
  have P: "fst ` set (parsed ?es) = set (map fst ?es)"
  proof -
    have "fst ` set (parsed ?es) = set (map fst (parsed ?es))" by simp
    also have "\<dots> = set (map fst ?es)" by (simp only: keys)
    finally show ?thesis .
  qed
  obtain s :: dom_state where d: "dom (nodes s) = fst ` set (parsed ?es)"
    and kd: "\<forall>x. kids (nodes s) x =
        map VNode (filter (\<lambda>c. c \<in> fst ` set (parsed ?es)) (childrenIds (map_of ?es x)))"
    and pa: "\<forall>x. (parent_of (nodes s) x = None) =
        (\<forall>p. x \<in> set (childrenIds (map_of ?es p)) \<longrightarrow> x \<notin> fst ` set (parsed ?es))"
    and c: "constructDomTree ev =
       (if resolves_to_element ev then Inr (?root, ?sm, nodes s) else Inl MalformedSnapshot)"
    using constructDomTree_plain[OF dk pl] by blast
  let ?st = "nodes s"
  have lenW: "length ?W = ?N"
  proof -
    have "length ?W = card (set ?W)" using dW by (rule distinct_card[symmetric])
    also have "\<dots> = card (set (map fst ?es))" by (simp only: sW)
    also have "\<dots> = length (map fst ?es)" using dk by (rule distinct_card)
    also have "\<dots> = ?N" by simp
    finally show ?thesis .
  qed
  have sat: "walk ?ch (Suc ?N + k) ?root = ?W" for k
    using lenW by (intro walk_saturated_add) simp
  have child_tl: "c \<in> set (tl ?W)" if "x \<in> set (map fst ?es)" "c \<in> set (?ch x)" for x c
  proof -
    have "x \<in> set ?W" using that(1) sW by simp
    then have "c \<in> set (tl (walk ?ch (Suc (Suc ?N)) ?root))" using that(2) by (rule walk_child_in_tl)
    moreover have "walk ?ch (Suc (Suc ?N)) ?root = ?W" using sat[of 1] by simp
    ultimately show ?thesis by simp
  qed
  have root_W: "?root \<in> set ?W" by (rule walk_root_in)
  have root_key: "?root \<in> set (map fst ?es)" using root_W by (simp only: sW)
  have root_not_tl: "?root \<notin> set (tl ?W)" using dW by (rule walk_distinct_tl)
  have tl_W: "set (tl ?W) \<subseteq> set ?W" by (rule walk_tl_subset)
  have tl_keys: "set (tl ?W) \<subseteq> set (map fst ?es)" using tl_W by (simp only: sW)
  have closed: "c \<in> set (map fst ?es)" if "c \<in> set (?ch x)" for x c
  proof (cases "x \<in> set (map fst ?es)")
    case True
    then show ?thesis using child_tl[OF True that] tl_keys by blast
  next
    case False
    then have "map_of ?es x = None" by (simp add: map_of_eq_None_iff)
    then show ?thesis using that by (simp add: raw_children_def)
  qed
  have kids_eq: "kids ?st i = map VNode (?ch i)" for i
  proof -
    have "filter (\<lambda>c. c \<in> set (map fst ?es)) (?ch i) = ?ch i"
      using closed[of _ i] by (simp add: filter_id_conv)
    then show ?thesis using kd P by (simp add: raw_children_def)
  qed
  have "child_nodes ?st i = ?ch i" for i
    by (simp add: child_nodes_def kids_eq map_filter_node_of)
  then have kids_fun: "child_nodes ?st = ?ch" by (intro ext)
  have nodes: "tree_nodes ?st fuel ?root = ?W" if lt: "?N < fuel" for fuel
  proof -
    obtain k where "fuel = Suc ?N + k" using lt less_iff_Suc_add[of ?N fuel] by auto
    then show ?thesis using sat[of k] by (simp add: tree_nodes_def kids_fun)
  qed
  have parent_iff: "(parent_of ?st x = None) = (x = ?root)" if xk: "x \<in> set (map fst ?es)" for x
  proof -
    have p: "(parent_of ?st x = None) = (\<forall>p. x \<notin> set (?ch p))"
      using pa xk P by (simp add: raw_children_def)
    show ?thesis
    proof (cases "x = ?root")
      case True
      have "?root \<notin> set (?ch q)" for q
      proof (cases "q \<in> set (map fst ?es)")
        case True
        then show ?thesis using child_tl[OF True, of ?root] root_not_tl by blast
      next
        case False
        then have "map_of ?es q = None" by (simp add: map_of_eq_None_iff)
        then show ?thesis by (simp add: raw_children_def)
      qed
      then show ?thesis using True p by simp
    next
      case False
      have "x \<in> set ?W" using xk sW by simp
      then obtain q where q: "q \<in> set ?W" "x \<in> set (?ch q)"
        using walk_origin[of x ?ch ?N ?root] False by blast
      then have "parent_of ?st x \<noteq> None" using p by blast
      then show ?thesis using False by simp
    qed
  qed
  have roots: "filter (\<lambda>i. parent_of ?st i = None) (map fst ?es) = [?root]"
  proof -
    have "filter (\<lambda>i. parent_of ?st i = None) (map fst ?es) = filter (\<lambda>i. i = ?root) (map fst ?es)"
      using parent_iff by (intro filter_cong) simp_all
    then show ?thesis using filter_eq_single[OF dk root_key] by simp
  qed
  have c': "constructDomTree ev = Inr (?root, ?sm, ?st)" using c r by simp
  have d': "dom ?st = set (map fst ?es)" using d P by simp
  show ?thesis
    using c' d' nodes lenW dW sW roots kids_eq by (intro exI[of _ ?sm] exI[of _ ?st]) simp
qed

section \<open>Action payload normalization\<close>

lemma filter_no_null: "JNull \<notin> set xs \<Longrightarrow> filter (\<lambda>it. it \<noteq> JNull) xs = xs"
  by (induction xs) auto

lemma action_list_invalid_iff:
  "(action_list P a = Inl InvalidActionPayload) = (\<exists>s. a = JStr s \<and> P s = None)"
proof (cases a)
  case (JStr s)
  show ?thesis
  proof (cases "P s")
    case None
    then show ?thesis using JStr by (simp add: action_list_def)
  next
    case (Some v)
    then show ?thesis using JStr by (cases v) (simp_all add: action_list_def)
  qed
qed (simp_all add: action_list_def)

text \<open>
  C7, as stated, fails in its last part: a payload of none of the three accepted shapes
  does not fail. A missing or null action gives the empty batch and a number a batch of
  one entry; \<open>InvalidActionPayload\<close> is raised for neither.
\<close>

theorem non_accepted_shapes_do_not_fail:
  "action_list (\<lambda>s. None) JNull = Inr [] \<and> action_list (\<lambda>s. None) (JNum 5) = Inr [JNum 5] \<and>
   doMultiAction (\<lambda>s. None)
     (\<lambda>i. \<lparr>halted_before = False, outcome = NotRegistered, halted_after = False\<rparr>) JNull
     = (Returned [], [])"
  by (simp add: action_list_def doMultiAction_def)

text \<open>
  C7 (amended): a single action object, the list holding it and a string that
  \<open>JSON.parse\<close> reads as that list all normalize to the same ordered list; a list
  keeps its non-null items in order. Normalization fails with \<open>InvalidActionPayload\<close>
  exactly when the payload is a string that \<open>JSON.parse\<close> rejects; a falsy payload
  that is no string gives the empty list, and every other truthy value (a number, a
  boolean, an object) the list holding just that value.
\<close>

theorem action_normalization:
  "action_list P (JObj kvs) = Inr [JObj kvs] \<and>
   (JNull \<notin> set xs \<longrightarrow> action_list P (JArr xs) = Inr xs) \<and>
   (P s = Some (JArr xs) \<longrightarrow> action_list P (JStr s) = Inr xs) \<and>
   action_list P (JArr ys) = Inr (filter (\<lambda>it. it \<noteq> JNull) ys) \<and>
   (action_list P a = Inl InvalidActionPayload) = (\<exists>t. a = JStr t \<and> P t = None) \<and>
   (\<not> truthy a \<and> (\<forall>t. a \<noteq> JStr t) \<longrightarrow> action_list P a = Inr []) \<and>
   (truthy b \<and> (\<forall>t. b \<noteq> JStr t) \<and> (\<forall>zs. b \<noteq> JArr zs) \<longrightarrow> action_list P b = Inr [b])"
proof -
  have "action_list P a = Inr []" if "\<not> truthy a" "\<forall>t. a \<noteq> JStr t"
    using that by (cases a) (simp_all add: action_list_def)
  moreover have "action_list P b = Inr [b]"
    if "truthy b" "\<forall>t. b \<noteq> JStr t" "\<forall>zs. b \<noteq> JArr zs"
    using that by (cases b) (simp_all add: action_list_def)
  ultimately show ?thesis
    using action_list_invalid_iff[of P a]
    by (simp add: action_list_def filter_no_null)
qed

theorem action_normalization_witness:
  "action_list (\<lambda>s. if s = ''[{}]'' then Some (JArr [JObj [(''done'', JObj [])]]) else None)
       (JObj [(''done'', JObj [])]) = Inr [JObj [(''done'', JObj [])]] \<and>
   action_list (\<lambda>s. if s = ''[{}]'' then Some (JArr [JObj [(''done'', JObj [])]]) else None)
       (JArr [JObj [(''done'', JObj [])]]) = Inr [JObj [(''done'', JObj [])]] \<and>
   action_list (\<lambda>s. if s = ''[{}]'' then Some (JArr [JObj [(''done'', JObj [])]]) else None)
       (JStr ''[{}]'') = Inr [JObj [(''done'', JObj [])]] \<and>
   action_list (\<lambda>s. if s = ''[{}]'' then Some (JArr [JObj [(''done'', JObj [])]]) else None)
       (JStr ''not json'') = Inl InvalidActionPayload \<and>
   action_list (\<lambda>s. if s = ''[{}]'' then Some (JArr [JObj [(''done'', JObj [])]]) else None)
       JUndefined = Inr [] \<and>
   action_list (\<lambda>s. if s = ''[{}]'' then Some (JArr [JObj [(''done'', JObj [])]]) else None)
       (JNum 5) = Inr [JNum 5] \<and>
   action_list (\<lambda>s. if s = ''[{}]'' then Some (JArr [JObj [(''done'', JObj [])]]) else None)
       (JBool True) = Inr [JBool True]"
  using action_normalization[of
      "\<lambda>s. if s = ''[{}]'' then Some (JArr [JObj [(''done'', JObj [])]]) else None"
      "[(''done'', JObj [])]" "[JObj [(''done'', JObj [])]]" "''[{}]''" "[]" JUndefined "JNum 5"]
    action_normalization[of
      "\<lambda>s. if s = ''[{}]'' then Some (JArr [JObj [(''done'', JObj [])]]) else None"
      "[]" "[]" "[]" "[]" "JStr ''not json''" "JBool True"]
  by simp

section \<open>Batch execution\<close>

lemma failing_cases:
  "failing (name, a) = (case outcome a of Returns res \<Rightarrow> False | _ \<Rightarrow> True)"
  by (cases "outcome a") (simp_all add: failing_def)

lemma run_actions_few_errors:
  "\<forall>na \<in> set batch. unhalted na \<Longrightarrow> errCount + length (filter failing batch) \<le> 3 \<Longrightarrow>
   run_actions batch results errCount called =
     (Returned (results @ map recorded batch), called @ map fst (filter was_called batch))"
proof (induction batch arbitrary: results errCount called)
  case Nil
  show ?case by simp
next
  case (Cons na batch)
  obtain name a where na: "na = (name, a)" by (cases na)
  have h: "\<not> halted_before a" "\<not> halted_after a" and rest: "\<forall>x \<in> set batch. unhalted x"
    using Cons.prems(1) na by (simp_all add: unhalted_def)
  show ?case
  proof (cases "outcome a")
    case (Returns res)
    then have "errCount + length (filter failing batch) \<le> 3"
      using Cons.prems(2) na by (simp add: failing_cases)
    from Cons.IH[OF rest this] show ?thesis
      using na h Returns by (simp add: recorded_def was_called_def)
  next
    case NotRegistered
    then have "(errCount + 1) + length (filter failing batch) \<le> 3"
      using Cons.prems(2) na by (simp add: failing_cases)
    from Cons.IH[OF rest this] show ?thesis
      using na h NotRegistered Cons.prems(2) by (simp add: recorded_def was_called_def failing_cases)
  next
    case (CallThrows msg)
    then have "(errCount + 1) + length (filter failing batch) \<le> 3"
      using Cons.prems(2) na by (simp add: failing_cases)
    from Cons.IH[OF rest this] show ?thesis
      using na h CallThrows Cons.prems(2) by (simp add: recorded_def was_called_def failing_cases)
  next
    case ReturnsUndefined
    then have "(errCount + 1) + length (filter failing batch) \<le> 3"
      using Cons.prems(2) na by (simp add: failing_cases)
    from Cons.IH[OF rest this] show ?thesis
      using na h ReturnsUndefined Cons.prems(2) by (simp add: recorded_def was_called_def failing_cases)
  qed
qed

lemma run_actions_fourth_error:
  "\<forall>na \<in> set pre. unhalted na \<Longrightarrow> \<not> halted_before (snd x) \<Longrightarrow> failing x \<Longrightarrow>
   errCount + length (filter failing pre) = 3 \<Longrightarrow>
   run_actions (pre @ x # rest) results errCount called =
     (Thrown TooManyErrors, called @ map fst (filter was_called (pre @ [x])))"
proof (induction pre arbitrary: results errCount called)
  case Nil
  obtain name a where x: "x = (name, a)" by (cases x)
  show ?case
    using Nil x by (cases "outcome a") (simp_all add: failing_cases was_called_def)
next
  case (Cons na pre)
  obtain name a where na: "na = (name, a)" by (cases na)
  have h: "\<not> halted_before a" "\<not> halted_after a" and rest: "\<forall>x \<in> set pre. unhalted x"
    using Cons.prems(1) na by (simp_all add: unhalted_def)
  show ?case
  proof (cases "outcome a")
    case (Returns res)
    then have "errCount + length (filter failing pre) = 3"
      using Cons.prems(4) na by (simp add: failing_cases)
    from Cons.IH[OF rest Cons.prems(2,3) this] show ?thesis
      using na h Returns by (simp add: was_called_def)
  next
    case NotRegistered
    then have "(errCount + 1) + length (filter failing pre) = 3"
      using Cons.prems(4) na by (simp add: failing_cases)
    from Cons.IH[OF rest Cons.prems(2,3) this] show ?thesis
      using na h NotRegistered Cons.prems(4) by (simp add: was_called_def failing_cases)
  next
    case (CallThrows msg)
    then have "(errCount + 1) + length (filter failing pre) = 3"
      using Cons.prems(4) na by (simp add: failing_cases)
    from Cons.IH[OF rest Cons.prems(2,3) this] show ?thesis
      using na h CallThrows Cons.prems(4) by (simp add: was_called_def failing_cases)
  next
    case ReturnsUndefined
    then have "(errCount + 1) + length (filter failing pre) = 3"
      using Cons.prems(4) na by (simp add: failing_cases)
    from Cons.IH[OF rest Cons.prems(2,3) this] show ?thesis
      using na h ReturnsUndefined Cons.prems(4) by (simp add: was_called_def failing_cases)
  qed
qed

lemma failed_step_counts_once:
  "consecutiveFailures st + 1 < maxFailures cfg \<Longrightarrow> e \<noteq> [] \<Longrightarrow>
   loop_body cfg st (Out (Some e) d)
     = Continue (st\<lparr>consecutiveFailures := consecutiveFailures st + 1, stepCount := stepCount st + 1\<rparr>)"
  by (simp add: loop_body_def truthy_str_def Let_def)

lemma thrown_step_counts_once:
  "\<not> schemaFailure msg \<Longrightarrow>
   loop_body cfg st (Throws msg) =
     (if consecutiveFailures st + 1 \<ge> maxFailures cfg
      then Raise (max_failures_message (maxFailures cfg) msg)
             (st\<lparr>consecutiveFailures := consecutiveFailures st + 1\<rparr>)
      else Continue (st\<lparr>consecutiveFailures := consecutiveFailures st + 1,
                        stepCount := stepCount st + 1\<rparr>))"
  by (simp add: loop_body_def catch_block_def Let_def)

lemma string_of_nat_3: "string_of_nat 3 = ''3''"
  by code_simp

section \<open>The loop body\<close>

lemma catch_block_cases:
  "catch_block cfg st msg = r \<Longrightarrow>
   (r = Continue (st\<lparr>plannerStructured := False, navigatorStructured := False,
                     consecutiveFailures := 0\<rparr>) \<and> consecutiveFailures st = 0 \<and> schemaFailure msg) \<or>
   (r = Raise (max_failures_message (maxFailures cfg) msg)
          (st\<lparr>consecutiveFailures := consecutiveFailures st + 1\<rparr>) \<and>
      maxFailures cfg \<le> consecutiveFailures st + 1) \<or>
   (r = Continue (st\<lparr>consecutiveFailures := consecutiveFailures st + 1,
                     stepCount := stepCount st + 1\<rparr>) \<and>
      consecutiveFailures st + 1 < maxFailures cfg)"
  by (auto simp: catch_block_def Let_def split: if_splits)

lemma catch_block_Continue:
  assumes "catch_block cfg st msg = Continue st'" and "0 < maxFailures cfg"
    and "\<not> doneFlag st" and "stepCount st < maxSteps cfg"
  shows "at_loop_head cfg st'" and "stepCount st \<le> stepCount st'"
    and "consecutiveFailures st \<noteq> 0 \<or> \<not> schemaFailure msg \<Longrightarrow> stepCount st' = stepCount st + 1"
  using catch_block_cases[OF assms(1)] assms(2-4) by (auto simp: at_loop_head_def)

lemma catch_block_Raise:
  assumes "catch_block cfg st msg = Raise m st'"
  shows "maxFailures cfg \<le> consecutiveFailures st'" and "doneFlag st' = doneFlag st"
    and "stepCount st' = stepCount st"
  using catch_block_cases[OF assms(1)] by auto

lemma catch_block_not_Break: "catch_block cfg st msg \<noteq> Break st'"
  using catch_block_cases[of cfg st msg "Break st'"] by auto

lemma loop_body_Continue:
  assumes "loop_body cfg st out = Continue st'" and "0 < maxFailures cfg"
    and "\<not> doneFlag st" and "stepCount st < maxSteps cfg"
  shows "at_loop_head cfg st'" and "\<not> reports_done out" and "stepCount st \<le> stepCount st'"
    and "ordinary out \<Longrightarrow> stepCount st' = stepCount st + 1"
proof -
  show "at_loop_head cfg st'"
  proof (cases out)
    case (Throws msg)
    then show ?thesis using assms catch_block_Continue(1)[of cfg st msg st'] by (simp add: loop_body_def)
  next
    case (Out e d)
    show ?thesis
    proof (cases "truthy_str e")
      case True
      let ?st1 = "st\<lparr>consecutiveFailures := consecutiveFailures st + 1\<rparr>"
      show ?thesis
      proof (cases "maxFailures cfg \<le> consecutiveFailures st + 1")
        case t: True
        then have "catch_block cfg ?st1 (max_failures_message (maxFailures cfg) (the e)) = Continue st'"
          using assms(1) Out True by (simp add: loop_body_def Let_def)
        then show ?thesis using catch_block_Continue(1)[of cfg ?st1 _ st'] assms by simp
      next
        case False
        then show ?thesis using assms Out True by (auto simp: loop_body_def Let_def at_loop_head_def)
      qed
    next
      case False
      then show ?thesis using assms Out by (auto simp: loop_body_def Let_def at_loop_head_def split: if_splits)
    qed
  qed
  show "\<not> reports_done out"
    using assms(1) by (cases out) (auto simp: loop_body_def Let_def split: if_splits)
  show "stepCount st \<le> stepCount st'"
  proof (cases out)
    case (Throws msg)
    then show ?thesis using assms catch_block_Continue(2)[of cfg st msg st'] by (simp add: loop_body_def)
  next
    case (Out e d)
    show ?thesis
    proof (cases "truthy_str e \<and> maxFailures cfg \<le> consecutiveFailures st + 1")
      case True
      let ?st1 = "st\<lparr>consecutiveFailures := consecutiveFailures st + 1\<rparr>"
      have "catch_block cfg ?st1 (max_failures_message (maxFailures cfg) (the e)) = Continue st'"
        using assms(1) Out True by (simp add: loop_body_def Let_def)
      then show ?thesis using catch_block_Continue(2)[of cfg ?st1 _ st'] assms by simp
    next
      case False
      then show ?thesis using assms Out by (auto simp: loop_body_def Let_def split: if_splits)
    qed
  qed
  show "stepCount st' = stepCount st + 1" if "ordinary out"
  proof (cases out)
    case (Throws msg)
    then show ?thesis using that assms catch_block_Continue(3)[of cfg st msg st'] by (simp add: loop_body_def)
  next
    case (Out e d)
    show ?thesis
    proof (cases "truthy_str e \<and> maxFailures cfg \<le> consecutiveFailures st + 1")
      case True
      let ?st1 = "st\<lparr>consecutiveFailures := consecutiveFailures st + 1\<rparr>"
      have "catch_block cfg ?st1 (max_failures_message (maxFailures cfg) (the e)) = Continue st'"
        using assms(1) Out True by (simp add: loop_body_def Let_def)
      then show ?thesis using catch_block_Continue(3)[of cfg ?st1 _ st'] assms by simp
    next
      case False
      then show ?thesis using assms Out by (auto simp: loop_body_def Let_def split: if_splits)
    qed
  qed
qed

lemma loop_body_Break:
  assumes "loop_body cfg st out = Break st'"
  shows "reports_done out" and "doneFlag st'" and "stepCount st' = stepCount st"
    and "consecutiveFailures st' = 0"
  using assms catch_block_not_Break
  by (cases out; auto simp: loop_body_def Let_def split: if_splits)+

lemma loop_body_Raise:
  assumes "loop_body cfg st out = Raise m st'"
  shows "maxFailures cfg \<le> consecutiveFailures st'" and "\<not> reports_done out"
    and "doneFlag st' = doneFlag st" and "stepCount st' = stepCount st"
proof -
  have "\<exists>st1 msg. catch_block cfg st1 msg = Raise m st' \<and> doneFlag st1 = doneFlag st \<and>
          stepCount st1 = stepCount st"
    using assms by (cases out) (auto simp: loop_body_def Let_def split: if_splits)
  then obtain st1 msg where c: "catch_block cfg st1 msg = Raise m st'"
    and d: "doneFlag st1 = doneFlag st" "stepCount st1 = stepCount st" by blast
  show "maxFailures cfg \<le> consecutiveFailures st'" using catch_block_Raise(1)[OF c] .
  show "doneFlag st' = doneFlag st" using catch_block_Raise(2)[OF c] d by simp
  show "stepCount st' = stepCount st" using catch_block_Raise(3)[OF c] d by simp
  show "\<not> reports_done out"
    using assms by (cases out) (auto simp: loop_body_def Let_def split: if_splits)
qed

section \<open>Runs of the loop\<close>

lemma not_running_at_head:
  "at_loop_head cfg st \<Longrightarrow> \<not> running cfg st \<Longrightarrow> maxSteps cfg \<le> stepCount st"
  by (auto simp: at_loop_head_def running_def)

lemma run_loop_result:
  assumes "at_loop_head cfg st" and "run_loop cfg st outs k = Some (res, st', k')"
  shows "k \<le> k' \<and> k' \<le> k + length outs \<and>
    (res = Result True) = (k < k' \<and> reports_done (outs ! (k' - k - 1))) \<and>
    (\<exists>m. res = Failed m) = (maxFailures cfg \<le> consecutiveFailures st') \<and>
    (res = Result False) =
      (maxSteps cfg \<le> stepCount st' \<and> \<not> doneFlag st' \<and> consecutiveFailures st' < maxFailures cfg) \<and>
    (res = Result True \<longrightarrow> stepCount st' < maxSteps cfg) \<and>
    stepCount st' \<le> maxSteps cfg \<and>
    (doneFlag st' \<longrightarrow> res = Result True) \<and>
    (\<forall>j. j < k' - k - 1 \<longrightarrow> \<not> reports_done (outs ! j))"
  using assms
proof (induction outs arbitrary: st k)
  case Nil
  then have nr: "\<not> running cfg st" and eq: "res = Result (doneFlag st)" "st' = st" "k' = k"
    by (auto split: if_splits)
  show ?case
    using Nil.prems(1) not_running_at_head[OF Nil.prems(1) nr] eq
    by (auto simp: at_loop_head_def)
next
  case (Cons out rest)
  have pos: "0 < maxFailures cfg" using Cons.prems(1) by (auto simp: at_loop_head_def)
  show ?case
  proof (cases "running cfg st")
    case False
    then have eq: "res = Result (doneFlag st)" "st' = st" "k' = k"
      using Cons.prems(2) by auto
    show ?thesis
      using Cons.prems(1) not_running_at_head[OF Cons.prems(1) False] eq
      by (auto simp: at_loop_head_def)
  next
    case True
    then have nd: "\<not> doneFlag st" and sc: "stepCount st < maxSteps cfg"
      by (auto simp: running_def)
    show ?thesis
    proof (cases "loop_body cfg st out")
      case (Continue st1)
      have h1: "at_loop_head cfg st1" and nrd: "\<not> reports_done out"
        using loop_body_Continue[OF Continue pos nd sc] by auto
      have r: "run_loop cfg st1 rest (Suc k) = Some (res, st', k')"
        using Cons.prems(2) True Continue by simp
      note ih = Cons.IH[OF h1 r]
      have kk: "Suc k \<le> k'" using ih by simp
      have idx: "(out # rest) ! (k' - k - 1) = (if k' = Suc k then out else rest ! (k' - Suc k - 1))"
      proof (cases "k' = Suc k")
        case True
        then show ?thesis by simp
      next
        case False
        then have "k' - k - 1 = Suc (k' - Suc k - 1)" using kk by arith
        then show ?thesis using False by simp
      qed
      have nodone: "\<not> reports_done ((out # rest) ! j)" if "j < k' - k - 1" for j
      proof (cases j)
        case 0
        then show ?thesis using nrd by simp
      next
        case (Suc i)
        then have "i < k' - Suc k - 1" using that by simp
        then show ?thesis using ih Suc by simp
      qed
      show ?thesis
        using ih kk idx nrd nodone by (auto split: if_splits)
    next
      case (Break st1)
      then have eq: "res = Result (doneFlag st1)" "st' = st1" "k' = Suc k"
        using Cons.prems(2) True by auto
      show ?thesis
        using loop_body_Break[OF Break] eq sc pos by auto
    next
      case (Raise m st1)
      then have eq: "res = Failed m" "st' = st1" "k' = Suc k"
        using Cons.prems(2) True by auto
      show ?thesis
        using loop_body_Raise[OF Raise] eq sc nd by auto
    qed
  qed
qed

lemma run_loop_terminates:
  "at_loop_head cfg st \<Longrightarrow> maxSteps cfg \<le> stepCount st + length (filter ordinary outs) \<Longrightarrow>
   run_loop cfg st outs k \<noteq> None"
proof (induction outs arbitrary: st k)
  case Nil
  then show ?case by (auto simp: running_def)
next
  case (Cons out rest)
  have pos: "0 < maxFailures cfg" using Cons.prems(1) by (auto simp: at_loop_head_def)
  show ?case
  proof (cases "running cfg st")
    case False
    then show ?thesis by simp
  next
    case True
    then have nd: "\<not> doneFlag st" and sc: "stepCount st < maxSteps cfg"
      by (auto simp: running_def)
    show ?thesis
    proof (cases "loop_body cfg st out")
      case (Continue st1)
      note c = loop_body_Continue[OF Continue pos nd sc]
      have "maxSteps cfg \<le> stepCount st1 + length (filter ordinary rest)"
        using Cons.prems(2) c(3) c(4) by (cases "ordinary out") auto
      from Cons.IH[OF c(1) this] show ?thesis using True Continue by simp
    next
      case (Break st1)
      then show ?thesis using True by simp
    next
      case (Raise m st1)
      then show ?thesis using True by simp
    qed
  qed
qed

lemma initial_at_head: "0 < maxFailures cfg \<Longrightarrow> at_loop_head cfg (initial_state p n)"
  by (simp add: at_loop_head_def initial_state_def)

lemma run_loop_append:
  "run_loop cfg st pre k = None \<Longrightarrow>
   \<exists>st1. running cfg st1 \<and> (\<forall>rest. run_loop cfg st (pre @ rest) k = run_loop cfg st1 rest (k + length pre))"
proof (induction pre arbitrary: st k)
  case Nil
  then have "running cfg st" by (simp split: if_splits)
  then show ?case by (intro exI[of _ st]) simp
next
  case (Cons out pre)
  have r: "running cfg st" using Cons.prems by (simp split: if_splits)
  then obtain st' where c: "loop_body cfg st out = Continue st'"
    and n: "run_loop cfg st' pre (Suc k) = None"
    using Cons.prems by (cases "loop_body cfg st out") simp_all
  from Cons.IH[OF n] obtain st1 where "running cfg st1"
    and "\<forall>rest. run_loop cfg st' (pre @ rest) (Suc k) = run_loop cfg st1 rest (Suc k + length pre)"
    by blast
  then show ?case using r c by (intro exI[of _ st1]) simp
qed

lemma loop_body_done: "reports_done out \<Longrightarrow> \<exists>st'. loop_body cfg st out = Break st'"
  by (cases out) (simp_all add: loop_body_def Let_def)

lemma run_loop_done:
  assumes "run_loop cfg st pre k = None" and "reports_done d"
  shows "\<exists>st' k'. run_loop cfg st (pre @ d # post) k = Some (Result True, st', k')"
proof -
  obtain st1 where r: "running cfg st1"
    and e: "run_loop cfg st (pre @ d # post) k = run_loop cfg st1 (d # post) (k + length pre)"
    using run_loop_append[OF assms(1)] by blast
  obtain st2 where b: "loop_body cfg st1 d = Break st2" using loop_body_done[OF assms(2)] by blast
  have "doneFlag st2" using loop_body_Break(2)[OF b] .
  then show ?thesis using e r b by simp
qed

lemma invoke_flag: "fst (invoke n env) \<Longrightarrow> n"
  by (cases n) (simp_all add: invoke_def)

lemma invoke_off: "\<not> n \<Longrightarrow> invoke n env = (False, [Extraction], base env)"
  by (simp add: invoke_def)

lemma task_step_flags:
  "task_step (p, n) e = ((p', n'), ps) \<Longrightarrow>
   (p' \<longrightarrow> p) \<and> (n' \<longrightarrow> n) \<and> (\<not> n \<longrightarrow> StructuredSchema \<notin> set ps)"
  using invoke_flag[of n] by (cases e) (auto simp: invoke_off)

lemma run_events_flags:
  "run_events (p, n) evs = ((p', n'), tr) \<Longrightarrow>
   (p' \<longrightarrow> p) \<and> (n' \<longrightarrow> n) \<and> (\<not> n \<longrightarrow> (\<forall>ps \<in> set tr. StructuredSchema \<notin> set ps))"
proof (induction evs arbitrary: p n tr)
  case Nil
  then show ?case by simp
next
  case (Cons e evs)
  obtain p1 n1 ps where s: "task_step (p, n) e = ((p1, n1), ps)"
    by (cases "task_step (p, n) e") auto
  obtain tr1 where t: "run_events (p1, n1) evs = ((p', n'), tr1)" and tr: "tr = ps # tr1"
    using Cons.prems s by (auto simp: Let_def split: prod.splits)
  show ?case
    using Cons.IH[OF t] task_step_flags[OF s] tr by auto
qed

lemma task_step_planner: "fst (fst (task_step s e)) \<Longrightarrow> fst s"
  by (cases s; cases e) simp_all

lemma task_step_navigator: "snd (fst (task_step s e)) \<Longrightarrow> snd s"
proof (cases s)
  case (Pair p n)
  assume a: "snd (fst (task_step s e))"
  show ?thesis
  proof (cases e)
    case (NavigatorInvoke env)
    then have "fst (invoke n env)" using a Pair by simp
    then have n by (rule invoke_flag)
    then show ?thesis using Pair by simp
  next
    case LoopFallback
    then show ?thesis using a Pair by simp
  qed
qed

lemma downgrades_off:
  assumes mono: "\<And>s (e :: 'r task_event). flag (fst (task_step s e)) \<Longrightarrow> flag s"
  shows "\<not> flag s \<Longrightarrow> downgrades flag s (evs :: 'r task_event list) = 0"
proof (induction evs arbitrary: s)
  case Nil
  show ?case by simp
next
  case (Cons e evs)
  have off: "\<not> flag (fst (task_step s e))" using mono[of s e] Cons.prems by auto
  have "downgrades flag (fst (task_step s e)) evs = 0" using off by (rule Cons.IH)
  then show ?case using Cons.prems by simp
qed

lemma downgrades_le_1:
  assumes mono: "\<And>s (e :: 'r task_event). flag (fst (task_step s e)) \<Longrightarrow> flag s"
  shows "downgrades flag s (evs :: 'r task_event list) \<le> 1"
proof (induction evs arbitrary: s)
  case Nil
  show ?case by simp
next
  case (Cons e evs)
  show ?case
  proof (cases "flag (fst (task_step s e))")
    case True
    then have "flag s" using mono[of s e] by simp
    then show ?thesis using True Cons.IH[of "fst (task_step s e)"] by simp
  next
    case False
    have "downgrades flag (fst (task_step s e)) evs = 0"
      using mono False by (rule downgrades_off)
    then show ?thesis by simp
  qed
qed

lemma catch_block_lowers_flags:
  "catch_block cfg st msg = r \<Longrightarrow> r = Continue st' \<or> r = Break st' \<or> r = Raise m st' \<Longrightarrow>
   (plannerStructured st', navigatorStructured st') = (plannerStructured st, navigatorStructured st) \<or>
   (plannerStructured st', navigatorStructured st') = fst (task_step (plannerStructured st, navigatorStructured st) LoopFallback)"
  by (auto simp: catch_block_def Let_def split: if_splits)

lemma loop_body_lowers_flags:
  assumes "loop_body cfg st out = r" and "r = Continue st' \<or> r = Break st' \<or> r = Raise m st'"
  shows "(plannerStructured st', navigatorStructured st') = (plannerStructured st, navigatorStructured st) \<or>
   (plannerStructured st', navigatorStructured st') = fst (task_step (plannerStructured st, navigatorStructured st) LoopFallback)"
proof (cases out)
  case (Throws msg)
  then show ?thesis using assms catch_block_lowers_flags[of cfg st msg r st' m] by (simp add: loop_body_def)
next
  case (Out e d)
  show ?thesis
  proof (cases "truthy_str e \<and> maxFailures cfg \<le> consecutiveFailures st + 1")
    case True
    let ?st1 = "st\<lparr>consecutiveFailures := consecutiveFailures st + 1\<rparr>"
    have "catch_block cfg ?st1 (max_failures_message (maxFailures cfg) (the e)) = r"
      using assms(1) Out True by (simp add: loop_body_def Let_def)
    from catch_block_lowers_flags[OF this assms(2)] show ?thesis by simp
  next
    case False
    then show ?thesis using assms Out by (auto simp: loop_body_def Let_def split: if_splits)
  qed
qed

lemma schema_message: "invoke_schemaFailure ''JSON schema conversion failed''"
  by (simp add: invoke_schemaFailure_def)

lemma schema_message_loop: "schemaFailure ''JSON schema conversion failed''"
  by (simp add: schemaFailure_def)

lemma fallback_never_uses_a_step:
  assumes "structuredOutput cfg \<noteq> Some False" and "schemaFailure msg"
  shows "running cfg st \<Longrightarrow> consecutiveFailures st = 0 \<Longrightarrow>
         run_loop cfg st (replicate j (Throws msg)) k = None"
proof (induction j arbitrary: st k)
  case 0
  then show ?case by simp
next
  case (Suc j)
  let ?st = "st\<lparr>plannerStructured := False, navigatorStructured := False, consecutiveFailures := 0\<rparr>"
  have b: "loop_body cfg st (Throws msg) = Continue ?st"
    using assms Suc.prems(2) by (simp add: loop_body_def catch_block_def)
  have "running cfg ?st" using Suc.prems by (simp add: running_def)
  then have "run_loop cfg ?st (replicate j (Throws msg)) (Suc k) = None"
    by (rule Suc.IH) simp
  then show ?case using Suc.prems(1) b by simp
qed

section \<open>Properties of the orchestration loop\<close>

text \<open>
  C4 asks that a step aborted by more than 3 action errors raises the consecutive-failure
  counter exactly once. The batch loop does abort at the fourth error without calling the
  fifth action, but when that failed step is the one that exhausts the failure budget and
  the step output carries the error, the counter is raised twice: from 2 to 4 with
  \<open>maxFailures = 3\<close>, and the message is wrapped twice.
\<close>

theorem last_failed_step_counts_twice:
  "doMultiAction (\<lambda>s. None)
     (\<lambda>i. \<lparr>halted_before = False, outcome = CallThrows ''boom'', halted_after = False\<rparr>)
     (JArr [JObj [(''a'', JObj [])], JObj [(''b'', JObj [])], JObj [(''c'', JObj [])],
            JObj [(''d'', JObj [])], JObj [(''e'', JObj [])]])
     = (Thrown TooManyErrors, [''a'', ''b'', ''c'', ''d'']) \<and>
   loop_body \<lparr>maxSteps = 10, maxFailures = 3, structuredOutput = None\<rparr>
     \<lparr>stepCount = 2, doneFlag = False, consecutiveFailures = 2,
      plannerStructured = True, navigatorStructured = True\<rparr>
     (Out (Some ''Too many errors in actions'') None)
     = Raise ''Max failures (3) reached. Last error: Max failures (3) reached. Last error: Too many errors in actions''
         \<lparr>stepCount = 2, doneFlag = False, consecutiveFailures = 4,
          plannerStructured = True, navigatorStructured = True\<rparr>"
proof -
  have "doMultiAction (\<lambda>s. None)
     (\<lambda>i. \<lparr>halted_before = False, outcome = CallThrows ''boom'', halted_after = False\<rparr>)
     (JArr [JObj [(''a'', JObj [])], JObj [(''b'', JObj [])], JObj [(''c'', JObj [])],
            JObj [(''d'', JObj [])], JObj [(''e'', JObj [])]])
     = (Thrown TooManyErrors, [''a'', ''b'', ''c'', ''d''])"
    by (simp add: doMultiAction_def action_list_def display_name_def)
  moreover have "loop_body \<lparr>maxSteps = 10, maxFailures = 3, structuredOutput = None\<rparr>
     \<lparr>stepCount = 2, doneFlag = False, consecutiveFailures = 2,
      plannerStructured = True, navigatorStructured = True\<rparr>
     (Out (Some ''Too many errors in actions'') None)
     = Raise ''Max failures (3) reached. Last error: Max failures (3) reached. Last error: Too many errors in actions''
         \<lparr>stepCount = 2, doneFlag = False, consecutiveFailures = 4,
          plannerStructured = True, navigatorStructured = True\<rparr>"
    by (simp add: loop_body_def catch_block_def truthy_str_def Let_def max_failures_message_def
        string_of_nat_3 schemaFailure_def)
  ultimately show ?thesis by (rule conjI)
qed

text \<open>
  C1 (amended): count as a step every iteration of the loop except a fallback retry. With
  a positive failure budget, a run ends once it has been given \<open>maxSteps\<close> step outcomes
  other than thrown schema failures; a done report arriving while the loop is running ends
  the run in \<open>DONE\<close>; and a run that ends, ends in \<open>DONE\<close> exactly when the last step
  outcome it took reports done with fewer than \<open>maxSteps\<close> steps counted, in \<open>FAILED\<close>
  exactly when the failure counter has reached \<open>maxFailures\<close> (the task is then not done),
  and in \<open>INCOMPLETE\<close> exactly when \<open>maxSteps\<close> steps are counted with the task not done
  and the counter below its budget.
\<close>

theorem orchestration_terminal_states:
  assumes "0 < maxFailures cfg"
  shows "(maxSteps cfg \<le> length (filter ordinary outs) \<longrightarrow>
            run_loop cfg (initial_state p n) outs 0 \<noteq> None) \<and>
         (run_loop cfg (initial_state p n) pre 0 = None \<and> reports_done d \<longrightarrow>
            (\<exists>st' k'. run_loop cfg (initial_state p n) (pre @ d # post) 0
                        = Some (Result True, st', k'))) \<and>
         (run_loop cfg (initial_state p n) outs 0 = Some (res, st, k) \<longrightarrow>
            k \<le> length outs \<and>
            (terminal_of res = DONE) =
              (0 < k \<and> reports_done (outs ! (k - 1)) \<and> stepCount st < maxSteps cfg) \<and>
            (terminal_of res = FAILED) =
              (maxFailures cfg \<le> consecutiveFailures st \<and> \<not> doneFlag st) \<and>
            (terminal_of res = INCOMPLETE) =
              (maxSteps cfg \<le> stepCount st \<and> \<not> doneFlag st \<and>
               consecutiveFailures st < maxFailures cfg))"
proof (intro conjI impI)
  assume "maxSteps cfg \<le> length (filter ordinary outs)"
  then show "run_loop cfg (initial_state p n) outs 0 \<noteq> None"
    using run_loop_terminates[OF initial_at_head[OF assms, of p n], where outs = outs and k = 0]
    by (simp add: initial_state_def)
next
  assume "run_loop cfg (initial_state p n) pre 0 = None \<and> reports_done d"
  then show "\<exists>st' k'. run_loop cfg (initial_state p n) (pre @ d # post) 0
                        = Some (Result True, st', k')"
    using run_loop_done[of cfg "initial_state p n" pre 0 d post] by simp
next
  assume r: "run_loop cfg (initial_state p n) outs 0 = Some (res, st, k)"
  note f = run_loop_result[OF initial_at_head[OF assms, of p n] r]
  have d: "(terminal_of res = DONE) = (res = Result True)"
    and i: "(terminal_of res = INCOMPLETE) = (res = Result False)"
    and fl: "(terminal_of res = FAILED) = (\<exists>m. res = Failed m)"
    by (cases res rule: terminal_of.cases; simp)+
  show "k \<le> length outs" using f by simp
  show "(terminal_of res = DONE) =
          (0 < k \<and> reports_done (outs ! (k - 1)) \<and> stepCount st < maxSteps cfg)"
    using f d by auto
  show "(terminal_of res = INCOMPLETE) =
          (maxSteps cfg \<le> stepCount st \<and> \<not> doneFlag st \<and>
           consecutiveFailures st < maxFailures cfg)"
    using f i by auto
  show "(terminal_of res = FAILED) = (maxFailures cfg \<le> consecutiveFailures st \<and> \<not> doneFlag st)"
    using f fl by auto
qed

theorem orchestration_terminal_states_witness:
  "run_loop \<lparr>maxSteps = 2, maxFailures = 3, structuredOutput = None\<rparr> (initial_state True True)
     [Out None (Some False), Out None (Some True)] 0
     = Some (Result True,
             \<lparr>stepCount = 1, doneFlag = True, consecutiveFailures = 0,
              plannerStructured = True, navigatorStructured = True\<rparr>, 2) \<and>
   run_loop \<lparr>maxSteps = 2, maxFailures = 3, structuredOutput = None\<rparr> (initial_state True True)
     [Out None (Some False)] 0 = None \<and>
   terminal_of (Result True) = DONE"
  using orchestration_terminal_states[of "\<lparr>maxSteps = 2, maxFailures = 3, structuredOutput = None\<rparr>"
      "[Out None (Some False), Out None (Some True)]" True True
      "[Out None (Some False)]" "Out None (Some True)" "[]" "Result True"
      "\<lparr>stepCount = 1, doneFlag = True, consecutiveFailures = 0,
        plannerStructured = True, navigatorStructured = True\<rparr>" 2]
  by (simp add: initial_state_def running_def loop_body_def truthy_str_def)

text \<open>
  The flags of the two agents only go off. Over any sequence of navigator invocations and
  loop fallbacks of one task, a flag that is off stays off; once the navigator's flag is
  off every invocation uses the extraction parser only; each agent's flag goes from on to
  off at most once; a schema failure under the structured parser switches the navigator
  off and answers by extraction; and an iteration of the loop leaves the flags as they are
  or switches both off.
\<close>

lemma flags_only_go_off:
  "(run_events (p, n) evs = ((p', n'), tr) \<longrightarrow>
      (p' \<longrightarrow> p) \<and> (n' \<longrightarrow> n) \<and> (\<not> n \<longrightarrow> (\<forall>ps \<in> set tr. StructuredSchema \<notin> set ps))) \<and>
   downgrades snd (p, n) evs \<le> 1 \<and> downgrades fst (p, n) evs \<le> 1 \<and>
   (original env = Inl msg \<and> invoke_schemaFailure msg \<longrightarrow>
      invoke True env = (False, [StructuredSchema, Extraction], base env)) \<and>
   invoke False env = (False, [Extraction], base env) \<and>
   (loop_body cfg st out = Continue st' \<or> loop_body cfg st out = Break st' \<or>
    loop_body cfg st out = Raise m st' \<longrightarrow>
      (plannerStructured st', navigatorStructured st') = (plannerStructured st, navigatorStructured st) \<or>
      (plannerStructured st', navigatorStructured st') = (False, False))"
proof (intro conjI impI)
  assume "run_events (p, n) evs = ((p', n'), tr)"
  note f = run_events_flags[OF this]
  show "p' \<Longrightarrow> p" using f by simp
  show "n' \<Longrightarrow> n" using f by simp
  show "\<not> n \<Longrightarrow> \<forall>ps \<in> set tr. StructuredSchema \<notin> set ps" using f by simp
next
  show "downgrades snd (p, n) evs \<le> 1" using task_step_navigator by (rule downgrades_le_1)
  show "downgrades fst (p, n) evs \<le> 1" using task_step_planner by (rule downgrades_le_1)
  show "invoke False env = (False, [Extraction], base env)" by (simp add: invoke_def)
next
  assume "original env = Inl msg \<and> invoke_schemaFailure msg"
  then show "invoke True env = (False, [StructuredSchema, Extraction], base env)"
    by (simp add: invoke_def)
next
  assume a: "loop_body cfg st out = Continue st' \<or> loop_body cfg st out = Break st' \<or>
    loop_body cfg st out = Raise m st'"
  have "(plannerStructured st', navigatorStructured st') = (plannerStructured st, navigatorStructured st) \<or>
   (plannerStructured st', navigatorStructured st') = fst (task_step (plannerStructured st, navigatorStructured st) LoopFallback)"
    using a by (intro loop_body_lowers_flags[of cfg st out _ st' m]) auto
  then show "(plannerStructured st', navigatorStructured st') = (plannerStructured st, navigatorStructured st) \<or>
      (plannerStructured st', navigatorStructured st') = (False, False)"
    by simp
qed

lemma flags_only_go_off_example:
  "run_events (True, True)
     [NavigatorInvoke \<lparr>original = Inl ''JSON schema conversion failed'', base = Inr (0::nat)\<rparr>,
      LoopFallback,
      NavigatorInvoke \<lparr>original = Inr 1, base = Inr 2\<rparr>]
     = ((False, False), [[StructuredSchema, Extraction], [], [Extraction]]) \<and>
   run_events (True, False)
     [NavigatorInvoke \<lparr>original = Inr (1::nat), base = Inr 2\<rparr>] = ((True, False), [[Extraction]]) \<and>
   loop_body \<lparr>maxSteps = 10, maxFailures = 3, structuredOutput = None\<rparr>
     (initial_state True True) (Throws ''JSON schema conversion failed'')
     = Continue (initial_state False False)"
  using flags_only_go_off[of True False
      "[NavigatorInvoke \<lparr>original = Inr (1::nat), base = Inr 2\<rparr>]" True False "[[Extraction]]"
      "\<lparr>original = Inl ''JSON schema conversion failed'', base = Inr (0::nat)\<rparr>"
      "''JSON schema conversion failed''"
      "\<lparr>maxSteps = 10, maxFailures = 3, structuredOutput = None\<rparr>"
      "initial_state True True" "Throws ''JSON schema conversion failed''"
      "initial_state False False" "''''"]
  by (simp add: invoke_def schema_message schema_message_loop loop_body_def catch_block_def
      initial_state_def)

text \<open>
  C1, as stated, fails: a fallback retry is an iteration that counts neither as a step nor
  as a failure, so the navigator can be called more often than \<open>maxSteps\<close> times. With
  \<open>maxSteps = 1\<close> the run below ends in \<open>DONE\<close> on the done report of the second call.
\<close>

theorem done_on_call_beyond_step_budget:
  "run_loop \<lparr>maxSteps = 1, maxFailures = 3, structuredOutput = None\<rparr> (initial_state True True)
     [Throws ''JSON schema conversion failed'', Out None (Some True)] 0
     = Some (Result True,
             \<lparr>stepCount = 0, doneFlag = True, consecutiveFailures = 0,
              plannerStructured = False, navigatorStructured = False\<rparr>, 2) \<and>
   \<not> 2 \<le> maxSteps \<lparr>maxSteps = 1, maxFailures = 3, structuredOutput = None\<rparr>"
  by (simp add: initial_state_def running_def loop_body_def catch_block_def truthy_str_def
      schema_message_loop)

text \<open>
  C5 asks that the fallback is triggered at most once in a task. The branch commented
  \<open>One-time fallback\<close> is guarded by the counter being 0 and resets it, so it is taken
  again at the next thrown schema failure: twice in the run below, each time without
  counting a step or a failure, and with both agents already switched off the second time.
\<close>

theorem fallback_taken_twice:
  "fallbacks \<lparr>maxSteps = 10, maxFailures = 3, structuredOutput = None\<rparr> (initial_state True True)
     [Throws ''JSON schema conversion failed'', Throws ''JSON schema conversion failed'',
      Out None (Some True)] = 2 \<and>
   loop_body \<lparr>maxSteps = 10, maxFailures = 3, structuredOutput = None\<rparr>
     (initial_state True True) (Throws ''JSON schema conversion failed'')
     = Continue (initial_state False False) \<and>
   loop_body \<lparr>maxSteps = 10, maxFailures = 3, structuredOutput = None\<rparr>
     (initial_state False False) (Throws ''JSON schema conversion failed'')
     = Continue (initial_state False False) \<and>
   run_loop \<lparr>maxSteps = 10, maxFailures = 3, structuredOutput = None\<rparr> (initial_state True True)
     [Throws ''JSON schema conversion failed'', Throws ''JSON schema conversion failed'',
      Out None (Some True)] 0
     = Some (Result True,
             \<lparr>stepCount = 0, doneFlag = True, consecutiveFailures = 0,
              plannerStructured = False, navigatorStructured = False\<rparr>, 3)"
  by (simp add: initial_state_def running_def loop_body_def catch_block_def truthy_str_def
      schema_message_loop)

end
